theory Spec2Isabelle
  imports Complex_Main
begin

section \<open>Hyperparameters\<close>

text \<open>The module-level constants of \<^verbatim>\<open>gpt-llm.py\<close> (lines 7-17).\<close>

definition batch_size :: nat where
  "batch_size = 64"

definition block_size :: nat where
  "block_size = 256"

definition max_iters :: nat where
  "max_iters = 5000"

definition eval_interval :: nat where
  "eval_interval = 500"

definition eval_iters :: nat where
  "eval_iters = 200"

definition n_embd :: nat where
  "n_embd = 384"

definition n_head :: nat where
  "n_head = 6"

definition n_layer :: nat where
  "n_layer = 6"

definition dropout :: real where
  "dropout = 0.2"

section \<open>Errors\<close>

text \<open>
  The exceptions the program can raise: a dictionary lookup of a missing key, an index
  out of range (embedding lookup, \<^verbatim>\<open>logits[:, -1, :]\<close> on an empty time axis), and
  the backend's \<^verbatim>\<open>RuntimeError\<close> (empty range of \<^verbatim>\<open>torch.randint\<close>, shapes
  that do not match), and an attribute read on \<^verbatim>\<open>None\<close>.
\<close>

datatype error = KeyError | IndexError | RuntimeError | AttributeError

section \<open>Vocabulary (lines 25-34)\<close>

text \<open>
  The corpus is a list of characters of any linearly ordered type (Python orders
  characters by code point). \<^verbatim>\<open>chars = sorted(list(set(text)))\<close>.
\<close>

definition chars :: "'c::linorder list \<Rightarrow> 'c list" where
  "chars text = sorted_list_of_set (set text)"

definition vocab_size :: "'c::linorder list \<Rightarrow> nat" where
  "vocab_size text = length (chars text)"

text \<open>A dict comprehension stores its pairs in order; a later pair overwrites an earlier one.\<close>

definition dict_of :: "('k \<times> 'v) list \<Rightarrow> ('k \<rightharpoonup> 'v)" where
  "dict_of kvs = fold (\<lambda>(k, v) m. m(k \<mapsto> v)) kvs Map.empty"

definition stoi :: "'c::linorder list \<Rightarrow> ('c \<rightharpoonup> nat)" where
  "stoi text = dict_of (map (\<lambda>(i, ch). (ch, i)) (List.enumerate 0 (chars text)))"

definition itos :: "'c::linorder list \<Rightarrow> (nat \<rightharpoonup> 'c)" where
  "itos text = dict_of (List.enumerate 0 (chars text))"

text \<open>\<^verbatim>\<open>encode = lambda s: [stoi[c] for c in s]\<close>; a missing key raises.\<close>

fun encode :: "'c::linorder list \<Rightarrow> 'c list \<Rightarrow> error + nat list" where
  "encode text [] = Inr []"
| "encode text (c # s) =
     (case stoi text c of
        None \<Rightarrow> Inl KeyError
      | Some i \<Rightarrow> (case encode text s of Inl e \<Rightarrow> Inl e | Inr l \<Rightarrow> Inr (i # l)))"

text \<open>\<^verbatim>\<open>decode = lambda l: ''.join([itos[i] for i in l])\<close>.\<close>

fun decode :: "'c::linorder list \<Rightarrow> nat list \<Rightarrow> error + 'c list" where
  "decode text [] = Inr []"
| "decode text (i # l) =
     (case itos text i of
        None \<Rightarrow> Inl KeyError
      | Some ch \<Rightarrow> (case decode text l of Inl e \<Rightarrow> Inl e | Inr s \<Rightarrow> Inr (ch # s)))"

section \<open>Corpus split and batch sampler (lines 37-50)\<close>

text \<open>
  \<^verbatim>\<open>n = int(0.9 * len(data))\<close>: the floor of nine tenths of the length.
\<close>

definition n_split :: "nat list \<Rightarrow> nat" where
  "n_split data = (9 * length data) div 10"

definition train_data :: "nat list \<Rightarrow> nat list" where
  "train_data data = take (n_split data) data"

definition val_data :: "nat list \<Rightarrow> nat list" where
  "val_data data = drop (n_split data) data"

text \<open>
  A two-dimensional tensor of token ids (\<^verbatim>\<open>dtype=torch.long\<close>) carries its shape, so
  that the time axis is known also when the batch is empty.
\<close>

record long_tensor =
  size0 :: nat
  size1 :: nat
  rows :: "nat list list"

definition well_shaped :: "long_tensor \<Rightarrow> bool" where
  "well_shaped t \<longleftrightarrow>
     length (rows t) = size0 t \<and> list_all (\<lambda>r. length r = size1 t) (rows t)"

text \<open>
  The backend's random generator is a sequence of raw draws, consumed from the front.
  \<^verbatim>\<open>torch.randint(high, (n, 1))\<close> raises unless \<open>0 < high\<close>, and maps each raw draw
  into \<open>[0, high)\<close> by the remainder.
\<close>

type_synonym rng = "nat \<Rightarrow> nat"

definition advance :: "nat \<Rightarrow> rng \<Rightarrow> rng" where
  "advance n g = (\<lambda>k. g (k + n))"

definition torch_randint :: "int \<Rightarrow> nat \<Rightarrow> rng \<Rightarrow> error + (nat list \<times> rng)" where
  "torch_randint high n g =
     (if high \<le> 0 then Inl RuntimeError
      else Inr (map (\<lambda>k. g k mod nat high) [0..<n], advance n g))"

text \<open>Python's slice \<^verbatim>\<open>xs[i:j]\<close> for \<open>0 \<le> i\<close>: it truncates at the end of the list.\<close>

definition slice :: "'a list \<Rightarrow> nat \<Rightarrow> nat \<Rightarrow> 'a list" where
  "slice xs i j = take (j - i) (drop i xs)"

text \<open>\<^verbatim>\<open>torch.stack\<close> raises on an empty list and on rows of unequal length.\<close>

definition torch_stack :: "nat list list \<Rightarrow> error + long_tensor" where
  "torch_stack rs =
     (case rs of
        [] \<Rightarrow> Inl RuntimeError
      | r # _ \<Rightarrow>
          if list_all (\<lambda>r'. length r' = length r) rs
          then Inr \<lparr>size0 = length rs, size1 = length r, rows = rs\<rparr>
          else Inl RuntimeError)"

text \<open>
  \<^verbatim>\<open>get_batch(split)\<close>; the two splits are the globals \<^verbatim>\<open>train_data\<close> and
  \<^verbatim>\<open>val_data\<close>, passed here as arguments.
\<close>

definition get_batch ::
  "nat list \<Rightarrow> nat list \<Rightarrow> string \<Rightarrow> rng \<Rightarrow> error + ((long_tensor \<times> long_tensor) \<times> rng)" where
  "get_batch train val split g =
     (let data = (if split = ''train'' then train else val) in
      case torch_randint (int (length data) - int block_size) batch_size g of
        Inl e \<Rightarrow> Inl e
      | Inr (ix, g') \<Rightarrow>
          (case torch_stack (map (\<lambda>i. slice data i (i + block_size)) ix) of
             Inl e \<Rightarrow> Inl e
           | Inr x \<Rightarrow>
               (case torch_stack (map (\<lambda>i. slice data (i + 1) (i + block_size + 1)) ix) of
                  Inl e \<Rightarrow> Inl e
                | Inr y \<Rightarrow> Inr ((x, y), g'))))"

text \<open>
  The value of the local \<^verbatim>\<open>ix\<close> of \<^verbatim>\<open>get_batch\<close> when the draw succeeds: one start
  offset per row, each from its own raw draw.
\<close>

definition offsets :: "nat list \<Rightarrow> rng \<Rightarrow> nat list" where
  "offsets d g = map (\<lambda>k. g k mod (length d - block_size)) [0..<batch_size]"

section \<open>Tensor operations of the backend\<close>

text \<open>
  Floating-point numbers are idealised as reals. One sequence of activations, of shape
  \<open>(T, C)\<close>, is a list of \<open>T\<close> vectors; a batch is a list of sequences, and every layer
  acts on each sequence of the batch on its own. The learned tensors have the shapes
  their constructors fix, so they are functions of their indices, read only inside
  those shapes.
\<close>

type_synonym vec = "real list"
type_synonym mat = "real list list"

text \<open>\<^verbatim>\<open>nn.Linear(n_in, n_out, bias)\<close> holds a weight of shape \<open>(n_out, n_in)\<close>.\<close>

record linear =
  weight :: "nat \<Rightarrow> nat \<Rightarrow> real"
  bias :: "(nat \<Rightarrow> real) option"

definition nn_Linear :: "nat \<Rightarrow> nat \<Rightarrow> linear \<Rightarrow> mat \<Rightarrow> error + mat" where
  "nn_Linear n_in n_out l x =
     (if list_all (\<lambda>v. length v = n_in) x
      then Inr (map (\<lambda>v. map (\<lambda>out. (\<Sum>i\<leftarrow>[0..<n_in]. weight l out i * v ! i) +
                                    (case bias l of None \<Rightarrow> 0 | Some b \<Rightarrow> b out))
                              [0..<n_out]) x)
      else Inl RuntimeError)"

text \<open>\<^verbatim>\<open>nn.LayerNorm(n)\<close>: biased variance, \<open>eps = 1e-5\<close>, learned scale and shift.\<close>

record layer_norm =
  ln_weight :: "nat \<Rightarrow> real"
  ln_bias :: "nat \<Rightarrow> real"

definition mean :: "vec \<Rightarrow> real" where
  "mean v = sum_list v / real (length v)"

definition nn_LayerNorm :: "nat \<Rightarrow> layer_norm \<Rightarrow> mat \<Rightarrow> error + mat" where
  "nn_LayerNorm n p x =
     (if list_all (\<lambda>v. length v = n) x
      then Inr (map (\<lambda>v. let mu = mean v; var = mean (map (\<lambda>a. (a - mu)\<^sup>2) v)
                          in map (\<lambda>i. (v ! i - mu) / sqrt (var + 1 / 100000) * ln_weight p i
                                       + ln_bias p i) [0..<n]) x)
      else Inl RuntimeError)"

definition nn_ReLU :: "mat \<Rightarrow> mat" where
  "nn_ReLU x = map (map (\<lambda>a. max 0 a)) x"

text \<open>
  \<^verbatim>\<open>nn.Dropout(p)\<close>: in training mode an element is kept and scaled by \<open>1 / (1 - p)\<close>
  where the backend's mask says so and zeroed elsewhere; in evaluation mode the layer
  is the identity. The mask the backend draws is an argument.
\<close>

type_synonym mask = "nat \<Rightarrow> nat \<Rightarrow> bool"

definition nn_Dropout :: "bool \<Rightarrow> real \<Rightarrow> mask \<Rightarrow> mat \<Rightarrow> mat" where
  "nn_Dropout training p keep x =
     (if training
      then map (\<lambda>t. map (\<lambda>c. if keep t c then x ! t ! c / (1 - p) else 0)
                          [0..<length (x ! t)]) [0..<length x]
      else x)"

text \<open>Elementwise sum and difference of two tensors of the same shape.\<close>

definition tensor_add :: "mat \<Rightarrow> mat \<Rightarrow> mat" where
  "tensor_add x y = map2 (map2 (+)) x y"

definition tensor_sub :: "mat \<Rightarrow> mat \<Rightarrow> mat" where
  "tensor_sub x y = map2 (map2 (-)) x y"

definition dot :: "vec \<Rightarrow> vec \<Rightarrow> real" where
  "dot u v = sum_list (map2 (*) u v)"

text \<open>
  \<^verbatim>\<open>F.softmax(wei, dim=-1)\<close> on a row of scores; a masked score (minus infinity) is
  \<open>None\<close> and its exponential is 0.
\<close>

definition F_softmax :: "real option list \<Rightarrow> vec" where
  "F_softmax ws =
     (let es = map (\<lambda>w. case w of None \<Rightarrow> 0 | Some r \<Rightarrow> exp r) ws
      in map (\<lambda>e. e / sum_list es) es)"

text \<open>A list comprehension of calls that may raise: the first exception propagates.\<close>

fun sequence :: "(error + 'a) list \<Rightarrow> error + 'a list" where
  "sequence [] = Inr []"
| "sequence (r # rs) =
     (case r of
        Inl e \<Rightarrow> Inl e
      | Inr v \<Rightarrow> (case sequence rs of Inl e \<Rightarrow> Inl e | Inr vs \<Rightarrow> Inr (v # vs)))"

text \<open>\<^verbatim>\<open>nn.Embedding(num, dim)\<close>: a row lookup; an index outside the table raises.\<close>

definition nn_Embedding :: "nat \<Rightarrow> nat \<Rightarrow> (nat \<Rightarrow> nat \<Rightarrow> real) \<Rightarrow> nat list \<Rightarrow> error + mat" where
  "nn_Embedding num width table ids =
     (if list_all (\<lambda>i. i < num) ids
      then Inr (map (\<lambda>i. map (table i) [0..<width]) ids)
      else Inl IndexError)"

section \<open>Self-attention head (lines 68-93)\<close>

text \<open>\<^verbatim>\<open>head_size = n_embd // n_head\<close> (\<^verbatim>\<open>Block.__init__\<close>).\<close>

definition head_size :: nat where
  "head_size = n_embd div n_head"

record head =
  head_key :: linear
  head_query :: linear
  head_value :: linear

text \<open>The buffer \<^verbatim>\<open>tril = torch.tril(torch.ones(block_size, block_size))\<close>.\<close>

definition tril :: "nat \<Rightarrow> nat \<Rightarrow> real" where
  "tril i j = (if j \<le> i then 1 else 0)"

text \<open>
  \<^verbatim>\<open>wei.masked_fill(self.tril[:T, :T] == 0, float('-inf'))\<close> on scores of shape
  \<open>(T, T)\<close>. The slice of the buffer has \<open>min T block_size\<close> rows and columns, so for
  \<open>T > block_size\<close> the mask does not broadcast to the scores and the backend raises.
\<close>

definition masked_fill :: "mat \<Rightarrow> nat \<Rightarrow> error + real option list list" where
  "masked_fill wei T =
     (if T \<le> block_size
      then Inr (map (\<lambda>t. map (\<lambda>j. if tril t j = 0 then None else Some (wei ! t ! j)) [0..<T])
                    [0..<T])
      else Inl RuntimeError)"

text \<open>
  Lines 82-88 of \<^verbatim>\<open>Head.forward\<close>: the attention weights after the softmax. The
  scale \<^verbatim>\<open>C**-0.5\<close> uses the width \<open>C\<close> of the input.
\<close>

definition Head_wei :: "head \<Rightarrow> mat \<Rightarrow> error + mat" where
  "Head_wei h x =
     (let T = length x; C = length (hd x) in
      case nn_Linear n_embd head_size (head_key h) x of
        Inl e \<Rightarrow> Inl e
      | Inr k \<Rightarrow>
          (case nn_Linear n_embd head_size (head_query h) x of
             Inl e \<Rightarrow> Inl e
           | Inr q \<Rightarrow>
               (let wei = map (\<lambda>qt. map (\<lambda>kj. dot qt kj * real C powr (- (1 / 2))) k) q in
                case masked_fill wei T of
                  Inl e \<Rightarrow> Inl e
                | Inr wei \<Rightarrow> Inr (map F_softmax wei))))"

text \<open>\<^verbatim>\<open>wei @ v\<close> for weights of shape \<open>(T, T)\<close> and values of shape \<open>(T, head_size)\<close>.\<close>

definition matmul :: "mat \<Rightarrow> mat \<Rightarrow> mat" where
  "matmul wei v =
     map (\<lambda>w. map (\<lambda>c. \<Sum>j\<leftarrow>[0..<length v]. w ! j * v ! j ! c) [0..<head_size]) wei"

text \<open>
  Lines 89-93. Line 89 is the expression statement \<^verbatim>\<open>wei - self.dropout(wei)\<close>: the
  difference is computed and dropped, and \<^verbatim>\<open>wei\<close> keeps the softmax output.
\<close>

definition Head_forward :: "bool \<Rightarrow> mask \<Rightarrow> head \<Rightarrow> mat \<Rightarrow> error + mat" where
  "Head_forward training keep h x =
     (case Head_wei h x of
        Inl e \<Rightarrow> Inl e
      | Inr wei \<Rightarrow>
          (let unused = tensor_sub wei (nn_Dropout training dropout keep wei) in
           case nn_Linear n_embd head_size (head_value h) x of
             Inl e \<Rightarrow> Inl e
           | Inr v \<Rightarrow> Inr (matmul wei v)))"

section \<open>Multi-head attention, feed-forward and block (lines 95-140)\<close>

text \<open>The dropout masks of one block on one sequence.\<close>

record block_noise =
  att_keep :: "nat \<Rightarrow> mask"
  proj_keep :: mask
  ffwd_keep :: mask

record multi_head_attention =
  heads :: "nat \<Rightarrow> head"
  proj :: linear

text \<open>\<^verbatim>\<open>torch.cat(outs, dim=-1)\<close> of outputs of shape \<open>(T, head_size)\<close>.\<close>

definition cat_last :: "mat list \<Rightarrow> nat \<Rightarrow> mat" where
  "cat_last outs T = map (\<lambda>t. concat (map (\<lambda>out. out ! t) outs)) [0..<T]"

definition MultiHeadAttention_forward ::
  "bool \<Rightarrow> block_noise \<Rightarrow> multi_head_attention \<Rightarrow> mat \<Rightarrow> error + mat" where
  "MultiHeadAttention_forward training noise m x =
     (case sequence (map (\<lambda>i. Head_forward training (att_keep noise i) (heads m i) x)
                         [0..<n_head]) of
        Inl e \<Rightarrow> Inl e
      | Inr outs \<Rightarrow>
          (case nn_Linear n_embd n_embd (proj m) (cat_last outs (length x)) of
             Inl e \<Rightarrow> Inl e
           | Inr out \<Rightarrow> Inr (nn_Dropout training dropout (proj_keep noise) out)))"

record feed_forward =
  net0 :: linear
  net2 :: linear

definition FeedForward_forward :: "bool \<Rightarrow> mask \<Rightarrow> feed_forward \<Rightarrow> mat \<Rightarrow> error + mat" where
  "FeedForward_forward training keep f x =
     (case nn_Linear n_embd (4 * n_embd) (net0 f) x of
        Inl e \<Rightarrow> Inl e
      | Inr a \<Rightarrow>
          (case nn_Linear (4 * n_embd) n_embd (net2 f) (nn_ReLU a) of
             Inl e \<Rightarrow> Inl e
           | Inr out \<Rightarrow> Inr (nn_Dropout training dropout keep out)))"

record block =
  sa :: multi_head_attention
  ffwd :: feed_forward
  ln1 :: layer_norm
  ln2 :: layer_norm

definition Block_forward :: "bool \<Rightarrow> block_noise \<Rightarrow> block \<Rightarrow> mat \<Rightarrow> error + mat" where
  "Block_forward training noise b x =
     (case nn_LayerNorm n_embd (ln1 b) x of
        Inl e \<Rightarrow> Inl e
      | Inr a \<Rightarrow>
          (case MultiHeadAttention_forward training noise (sa b) a of
             Inl e \<Rightarrow> Inl e
           | Inr s \<Rightarrow>
               (let x1 = tensor_add x s in
                case nn_LayerNorm n_embd (ln2 b) x1 of
                  Inl e \<Rightarrow> Inl e
                | Inr a2 \<Rightarrow>
                    (case FeedForward_forward training (ffwd_keep noise) (ffwd b) a2 of
                       Inl e \<Rightarrow> Inl e
                     | Inr f \<Rightarrow> Inr (tensor_add x1 f)))))"

section \<open>Language model (lines 143-195)\<close>

record weights =
  token_embedding_table :: "nat \<Rightarrow> nat \<Rightarrow> real"
  position_embedding_table :: "nat \<Rightarrow> nat \<Rightarrow> real"
  blocks :: "nat \<Rightarrow> block"
  ln_f :: layer_norm
  lm_head :: linear

text \<open>\<^verbatim>\<open>nn.Sequential\<close>: the modules in order; an exception stops the chain.\<close>

fun Sequential :: "('a \<Rightarrow> error + 'a) list \<Rightarrow> 'a \<Rightarrow> error + 'a" where
  "Sequential [] x = Inr x"
| "Sequential (f # fs) x = (case f x of Inl e \<Rightarrow> Inl e | Inr y \<Rightarrow> Sequential fs y)"

text \<open>
  Lines 164-166 on one sequence of the batch: the blocks, the final normalisation and
  the projection to \<open>V = vocab_size\<close> logits. The masks are indexed by the layer.
\<close>

definition stack_forward ::
  "nat \<Rightarrow> weights \<Rightarrow> bool \<Rightarrow> (nat \<Rightarrow> block_noise) \<Rightarrow> mat \<Rightarrow> error + mat" where
  "stack_forward V w training noise x =
     (case Sequential (map (\<lambda>l. Block_forward training (noise l) (blocks w l)) [0..<n_layer]) x of
        Inl e \<Rightarrow> Inl e
      | Inr x1 \<Rightarrow>
          (case nn_LayerNorm n_embd (ln_f w) x1 of
             Inl e \<Rightarrow> Inl e
           | Inr x2 \<Rightarrow> nn_Linear n_embd V (lm_head w) x2))"

text \<open>
  \<^verbatim>\<open>F.cross_entropy(logits, targets)\<close> on logits of shape \<open>(N, C)\<close> and \<open>N\<close> targets:
  the mean of the negated log-softmax at the target; a target outside \<open>[0, C)\<close> raises.
\<close>

definition F_cross_entropy :: "mat \<Rightarrow> nat list \<Rightarrow> error + real" where
  "F_cross_entropy logits targets =
     (if length logits \<noteq> length targets then Inl RuntimeError
      else if \<not> list_all2 (\<lambda>l t. t < length l) logits targets then Inl IndexError
      else Inr (mean (map2 (\<lambda>l t. ln (sum_list (map exp l)) - l ! t) logits targets)))"

text \<open>The logits come back as \<open>(B, T, C)\<close> without targets and as \<open>(B * T, C)\<close> with them.\<close>

datatype logits = Logits3 "mat list" | Logits2 mat

text \<open>
  \<^verbatim>\<open>BigramLanguageModel.forward(idx, targets)\<close>. The flag \<open>training\<close> is the module's
  mode; \<open>noise b l\<close> holds the dropout masks of batch row \<open>b\<close> in layer \<open>l\<close>.
\<close>

definition forward ::
  "nat \<Rightarrow> weights \<Rightarrow> bool \<Rightarrow> (nat \<Rightarrow> nat \<Rightarrow> block_noise) \<Rightarrow> long_tensor \<Rightarrow> long_tensor option
     \<Rightarrow> error + (logits \<times> real option)" where
  "forward V w training noise idx targets =
     (let B = size0 idx; T = size1 idx in
      case sequence (map (nn_Embedding V n_embd (token_embedding_table w)) (rows idx)) of
        Inl e \<Rightarrow> Inl e
      | Inr tok_emb \<Rightarrow>
          (case nn_Embedding block_size n_embd (position_embedding_table w) [0..<T] of
             Inl e \<Rightarrow> Inl e
           | Inr pos_emb \<Rightarrow>
               (let x = map (\<lambda>r. tensor_add r pos_emb) tok_emb in
                case sequence (map (\<lambda>b. stack_forward V w training (noise b) (x ! b)) [0..<B]) of
                  Inl e \<Rightarrow> Inl e
                | Inr lg \<Rightarrow>
                    (case targets of
                       None \<Rightarrow> Inr (Logits3 lg, None)
                     | Some tg \<Rightarrow>
                         if size0 tg * size1 tg \<noteq> B * T then Inl RuntimeError
                         else (case F_cross_entropy (concat lg) (concat (rows tg)) of
                                 Inl e \<Rightarrow> Inl e
                               | Inr loss \<Rightarrow> Inr (Logits2 (concat lg), Some loss))))))"

section \<open>Generation (lines 180-195)\<close>

text \<open>\<^verbatim>\<open>idx[:, -block_size:]\<close>: the last \<open>block_size\<close> columns, or all of them if fewer.\<close>

definition crop :: "long_tensor \<Rightarrow> long_tensor" where
  "crop idx =
     \<lparr>size0 = size0 idx, size1 = min (size1 idx) block_size,
      rows = map (\<lambda>r. drop (length r - block_size) r) (rows idx)\<rparr>"

text \<open>\<^verbatim>\<open>logits[:, -1, :]\<close> on logits of shape \<open>(B, T, C)\<close>: it raises when \<open>T = 0\<close>.\<close>

definition last_step :: "mat list \<Rightarrow> nat \<Rightarrow> error + mat" where
  "last_step lg T = (if T = 0 then Inl IndexError else Inr (map last lg))"

text \<open>
  \<^verbatim>\<open>torch.multinomial(probs, num_samples=1)\<close>: one categorical draw per row. A raw
  draw gives a uniform number in \<open>[0, 1)\<close>; the sample is the first category whose
  cumulative weight exceeds it. The backend raises on a row with no category, with
  a negative weight or with weights that sum to 0.
\<close>

definition uniform01 :: "nat \<Rightarrow> real" where
  "uniform01 r = real (r mod 2 ^ 24) / 2 ^ 24"

definition cumsum :: "vec \<Rightarrow> vec" where
  "cumsum xs = map (\<lambda>i. sum_list (take (Suc i) xs)) [0..<length xs]"

definition categorical :: "vec \<Rightarrow> real \<Rightarrow> nat" where
  "categorical probs u =
     min (length probs - 1) (length (takeWhile (\<lambda>c. c \<le> u * sum_list probs) (cumsum probs)))"

definition torch_multinomial :: "mat \<Rightarrow> rng \<Rightarrow> error + (nat list \<times> rng)" where
  "torch_multinomial probs g =
     (if list_all (\<lambda>p. p \<noteq> [] \<and> list_all (\<lambda>a. 0 \<le> a) p \<and> 0 < sum_list p) probs
      then Inr (map (\<lambda>b. categorical (probs ! b) (uniform01 (g b))) [0..<length probs],
                advance (length probs) g)
      else Inl RuntimeError)"

text \<open>\<^verbatim>\<open>torch.cat((idx, idx_next), dim=1)\<close> for \<open>idx_next\<close> of shape \<open>(B, 1)\<close>.\<close>

definition torch_cat :: "long_tensor \<Rightarrow> nat list \<Rightarrow> long_tensor" where
  "torch_cat idx idx_next =
     \<lparr>size0 = size0 idx, size1 = size1 idx + 1,
      rows = map2 (\<lambda>r a. r @ [a]) (rows idx) idx_next\<rparr>"

text \<open>
  \<^verbatim>\<open>generate(idx, max_new_tokens)\<close>. The model is called in its current mode;
  \<open>noise k\<close> holds the dropout masks of the \<open>k\<close>-th call.
\<close>

fun generate ::
  "nat \<Rightarrow> weights \<Rightarrow> bool \<Rightarrow> (nat \<Rightarrow> nat \<Rightarrow> nat \<Rightarrow> block_noise) \<Rightarrow> long_tensor \<Rightarrow> nat \<Rightarrow> rng
     \<Rightarrow> error + (long_tensor \<times> rng)" where
  "generate V w training noise idx 0 g = Inr (idx, g)"
| "generate V w training noise idx (Suc k) g =
     (let idx_cond = crop idx in
      case forward V w training (noise 0) idx_cond None of
        Inl e \<Rightarrow> Inl e
      | Inr (lgs, loss) \<Rightarrow>
          (case lgs of
             Logits2 _ \<Rightarrow> Inl IndexError
           | Logits3 lg \<Rightarrow>
               (case last_step lg (size1 idx_cond) of
                  Inl e \<Rightarrow> Inl e
                | Inr final \<Rightarrow>
                    (let probs = map (\<lambda>l. F_softmax (map Some l)) final in
                     case torch_multinomial probs g of
                       Inl e \<Rightarrow> Inl e
                     | Inr (idx_next, g') \<Rightarrow>
                         generate V w training (\<lambda>s. noise (Suc s)) (torch_cat idx idx_next) k g'))))"

section \<open>Loss estimator and training loop (lines 53-66 and 198-221)\<close>

text \<open>
  The mutable state of the program: the mode flag and the parameters of the model
  \<^verbatim>\<open>m\<close>, the state of the optimizer, the backend's generator, the dropout masks of
  the training-mode calls to come, and what the program has done so far: the status
  lines printed and the optimizer steps taken, each with its iteration.
\<close>

datatype event = Printed nat real real | Stepped nat

record 'o world =
  m_training :: bool
  m_weights :: weights
  optimizer :: 'o
  generator :: rng
  masks :: "nat \<Rightarrow> nat \<Rightarrow> nat \<Rightarrow> block_noise"
  trace :: "event list"

text \<open>A call \<^verbatim>\<open>m(X, Y)\<close>; in training mode it uses up the next dropout masks.\<close>

definition call_model ::
  "nat \<Rightarrow> 'o world \<Rightarrow> long_tensor \<Rightarrow> long_tensor option
     \<Rightarrow> (error + (logits \<times> real option)) \<times> 'o world" where
  "call_model V s idx targets =
     (forward V (m_weights s) (m_training s) (masks s 0) idx targets,
      if m_training s then s\<lparr>masks := (\<lambda>k. masks s (Suc k))\<rparr> else s)"

text \<open>
  The inner loop of \<^verbatim>\<open>estimate_loss\<close>, \<^verbatim>\<open>for k in range(eval_iters)\<close>: the losses in
  order. An exception leaves the loop with the state as it is then.
\<close>

fun eval_batches ::
  "nat \<Rightarrow> nat list \<Rightarrow> nat list \<Rightarrow> string \<Rightarrow> nat \<Rightarrow> 'o world \<Rightarrow> (error + real list) \<times> 'o world" where
  "eval_batches V train val split 0 s = (Inr [], s)"
| "eval_batches V train val split (Suc k) s =
     (case get_batch train val split (generator s) of
        Inl e \<Rightarrow> (Inl e, s)
      | Inr ((X, Y), g') \<Rightarrow>
          (case call_model V (s\<lparr>generator := g'\<rparr>) X (Some Y) of
             (Inl e, s1) \<Rightarrow> (Inl e, s1)
           | (Inr (lg, loss), s1) \<Rightarrow>
               (case loss of
                  None \<Rightarrow> (Inl AttributeError, s1)
                | Some l \<Rightarrow>
                    (case eval_batches V train val split k s1 of
                       (Inl e, s2) \<Rightarrow> (Inl e, s2)
                     | (Inr ls, s2) \<Rightarrow> (Inr (l # ls), s2)))))"

text \<open>The outer loop, \<^verbatim>\<open>for split in ['train', 'val']\<close>, filling the dict \<^verbatim>\<open>out\<close>.\<close>

fun estimate_splits ::
  "nat \<Rightarrow> nat list \<Rightarrow> nat list \<Rightarrow> string list \<Rightarrow> (string \<rightharpoonup> real) \<Rightarrow> 'o world
     \<Rightarrow> (error + (string \<rightharpoonup> real)) \<times> 'o world" where
  "estimate_splits V train val [] out s = (Inr out, s)"
| "estimate_splits V train val (split # rest) out s =
     (case eval_batches V train val split eval_iters s of
        (Inl e, s1) \<Rightarrow> (Inl e, s1)
      | (Inr losses, s1) \<Rightarrow> estimate_splits V train val rest (out(split \<mapsto> mean losses)) s1)"

text \<open>
  \<^verbatim>\<open>estimate_loss()\<close>: \<^verbatim>\<open>m.eval()\<close>, the two loops, \<^verbatim>\<open>m.train()\<close>. There is no
  \<^verbatim>\<open>try\<close>: an exception in the loops leaves the function before \<^verbatim>\<open>m.train()\<close>.
\<close>

definition estimate_loss ::
  "nat \<Rightarrow> nat list \<Rightarrow> nat list \<Rightarrow> 'o world \<Rightarrow> (error + (string \<rightharpoonup> real)) \<times> 'o world" where
  "estimate_loss V train val s =
     (case estimate_splits V train val [''train'', ''val''] Map.empty (s\<lparr>m_training := False\<rparr>) of
        (Inl e, s1) \<Rightarrow> (Inl e, s1)
      | (Inr out, s1) \<Rightarrow> (Inr out, s1\<lparr>m_training := True\<rparr>))"

text \<open>
  The loss of the model on a batch as a function of the parameters: what
  \<^verbatim>\<open>loss.backward()\<close> differentiates.
\<close>

definition batch_loss ::
  "nat \<Rightarrow> (nat \<Rightarrow> nat \<Rightarrow> block_noise) \<Rightarrow> long_tensor \<Rightarrow> long_tensor \<Rightarrow> weights \<Rightarrow> real" where
  "batch_loss V noise xb yb w =
     (case forward V w True noise xb (Some yb) of Inr (lg, Some l) \<Rightarrow> l | _ \<Rightarrow> 0)"

text \<open>
  One iteration of the training loop (lines 209-221). Everything from the evaluation to
  \<^verbatim>\<open>optimizer.step()\<close> is inside the \<^verbatim>\<open>if\<close>. The backend's \<^verbatim>\<open>zero_grad\<close>,
  \<^verbatim>\<open>backward\<close> and \<^verbatim>\<open>step\<close> together are the argument \<open>opt\<close>: from the loss function,
  the parameters and the optimizer's state to the new parameters and state.
\<close>

definition train_iter ::
  "nat \<Rightarrow> ((weights \<Rightarrow> real) \<Rightarrow> weights \<Rightarrow> 'o \<Rightarrow> weights \<times> 'o) \<Rightarrow> nat list \<Rightarrow> nat list \<Rightarrow> nat
     \<Rightarrow> 'o world \<Rightarrow> (error + unit) \<times> 'o world" where
  "train_iter V opt train val iter s =
     (if iter mod eval_interval = 0 then
        (case estimate_loss V train val s of
           (Inl e, s1) \<Rightarrow> (Inl e, s1)
         | (Inr losses, s1) \<Rightarrow>
             (case (losses ''train'', losses ''val'') of
                (Some lt, Some lv) \<Rightarrow>
                  (let s2 = s1\<lparr>trace := trace s1 @ [Printed iter lt lv]\<rparr> in
                   case get_batch train val ''train'' (generator s2) of
                     Inl e \<Rightarrow> (Inl e, s2)
                   | Inr ((xb, yb), g') \<Rightarrow>
                       (let noise = masks s2 0 in
                        case call_model V (s2\<lparr>generator := g'\<rparr>) xb (Some yb) of
                          (Inl e, s3) \<Rightarrow> (Inl e, s3)
                        | (Inr (lg, loss), s3) \<Rightarrow>
                            (case loss of
                               None \<Rightarrow> (Inl AttributeError, s3)
                             | Some l \<Rightarrow>
                                 (case opt (batch_loss V noise xb yb) (m_weights s3) (optimizer s3) of
                                    (w', o') \<Rightarrow>
                                      (Inr (),
                                       s3\<lparr>m_weights := w', optimizer := o',
                                          trace := trace s3 @ [Stepped iter]\<rparr>)))))
              | _ \<Rightarrow> (Inl KeyError, s1)))
      else (Inr (), s))"

text \<open>\<^verbatim>\<open>for iter in range(max_iters)\<close>.\<close>

fun for_iters ::
  "nat \<Rightarrow> ((weights \<Rightarrow> real) \<Rightarrow> weights \<Rightarrow> 'o \<Rightarrow> weights \<times> 'o) \<Rightarrow> nat list \<Rightarrow> nat list \<Rightarrow> nat list
     \<Rightarrow> 'o world \<Rightarrow> (error + unit) \<times> 'o world" where
  "for_iters V opt train val [] s = (Inr (), s)"
| "for_iters V opt train val (iter # rest) s =
     (case train_iter V opt train val iter s of
        (Inl e, s1) \<Rightarrow> (Inl e, s1)
      | (Inr u, s1) \<Rightarrow> for_iters V opt train val rest s1)"

definition training_loop ::
  "nat \<Rightarrow> ((weights \<Rightarrow> real) \<Rightarrow> weights \<Rightarrow> 'o \<Rightarrow> weights \<times> 'o) \<Rightarrow> nat list \<Rightarrow> nat list
     \<Rightarrow> 'o world \<Rightarrow> (error + unit) \<times> 'o world" where
  "training_loop V opt train val s = for_iters V opt train val [0..<max_iters] s"

section \<open>Notions used in the statements\<close>

text \<open>
  The scaled affinity of query position \<open>t\<close> and key position \<open>j\<close> (line 86), written
  out from rows \<open>t\<close> and \<open>j\<close> of the input.
\<close>

definition score :: "head \<Rightarrow> mat \<Rightarrow> nat \<Rightarrow> nat \<Rightarrow> real" where
  "score h x t j =
     dot (map (\<lambda>out. (\<Sum>i\<leftarrow>[0..<n_embd]. weight (head_query h) out i * x ! t ! i) +
                       (case bias (head_query h) of None \<Rightarrow> 0 | Some b \<Rightarrow> b out)) [0..<head_size])
         (map (\<lambda>out. (\<Sum>i\<leftarrow>[0..<n_embd]. weight (head_key h) out i * x ! j ! i) +
                       (case bias (head_key h) of None \<Rightarrow> 0 | Some b \<Rightarrow> b out)) [0..<head_size])
       * real (length (hd x)) powr (- (1 / 2))"

text \<open>A small parameter set, at which the theorems are instantiated.\<close>

definition zero_linear :: linear where
  "zero_linear = \<lparr>weight = (\<lambda>out i. 0), bias = None\<rparr>"

definition pick_linear :: linear where
  "pick_linear = \<lparr>weight = (\<lambda>out i. if i = 0 then 1 else 0), bias = Some (\<lambda>out. 0)\<rparr>"

definition unit_norm :: layer_norm where
  "unit_norm = \<lparr>ln_weight = (\<lambda>i. 1), ln_bias = (\<lambda>i. 0)\<rparr>"

definition example_head :: head where
  "example_head = \<lparr>head_key = zero_linear, head_query = zero_linear, head_value = pick_linear\<rparr>"

definition example_block :: block where
  "example_block =
     \<lparr>sa = \<lparr>heads = (\<lambda>i. example_head), proj = pick_linear\<rparr>,
      ffwd = \<lparr>net0 = pick_linear, net2 = pick_linear\<rparr>,
      ln1 = unit_norm, ln2 = unit_norm\<rparr>"

definition example_weights :: weights where
  "example_weights =
     \<lparr>token_embedding_table = (\<lambda>i c. real i), position_embedding_table = (\<lambda>t c. real t),
      blocks = (\<lambda>l. example_block), ln_f = unit_norm, lm_head = pick_linear\<rparr>"

definition no_noise :: block_noise where
  "no_noise = \<lparr>att_keep = (\<lambda>i t c. True), proj_keep = (\<lambda>t c. True), ffwd_keep = (\<lambda>t c. True)\<rparr>"

text \<open>A sequence of activations of shape \<open>(T, C)\<close>.\<close>

definition has_shape :: "'a list list \<Rightarrow> nat \<Rightarrow> nat \<Rightarrow> bool" where
  "has_shape x T C \<longleftrightarrow> length x = T \<and> list_all (\<lambda>v. length v = C) x"

text \<open>
  A layer is causal when, wherever it returns, the first \<open>n\<close> rows of its output are
  determined by the first \<open>n\<close> rows of its input.
\<close>

definition causal :: "('a list \<Rightarrow> error + 'b list) \<Rightarrow> bool" where
  "causal f \<longleftrightarrow>
     (\<forall>x x' y y' n. f x = Inr y \<and> f x' = Inr y' \<and> take n x = take n x' \<longrightarrow> take n y = take n y')"

text \<open>Every entry of a tensor of token ids is a valid id: below the vocabulary size \<open>V\<close>.\<close>

definition valid_ids :: "nat \<Rightarrow> long_tensor \<Rightarrow> bool" where
  "valid_ids V idx \<longleftrightarrow> list_all (list_all (\<lambda>i. i < V)) (rows idx)"

text \<open>
  Lines 160-163 on one row of ids of length \<open>T\<close>: the sum of the token and position
  embeddings.
\<close>

definition embed_row :: "weights \<Rightarrow> nat \<Rightarrow> nat list \<Rightarrow> mat" where
  "embed_row w T ids =
     tensor_add (map (\<lambda>i. map (token_embedding_table w i) [0..<n_embd]) ids)
                (map (\<lambda>t. map (position_embedding_table w t) [0..<n_embd]) [0..<T])"

text \<open>One row of \<^verbatim>\<open>nn.Linear\<close>, and row \<open>t\<close> of the output of a head written out from
  rows \<open>0 .. t\<close> of its input.\<close>

definition linear_row :: "nat \<Rightarrow> nat \<Rightarrow> linear \<Rightarrow> vec \<Rightarrow> vec" where
  "linear_row n_in n_out l v =
     map (\<lambda>out. (\<Sum>i\<leftarrow>[0..<n_in]. weight l out i * v ! i) +
                 (case bias l of None \<Rightarrow> 0 | Some b \<Rightarrow> b out)) [0..<n_out]"

definition head_row :: "head \<Rightarrow> mat \<Rightarrow> nat \<Rightarrow> vec" where
  "head_row h x t =
     map (\<lambda>c. \<Sum>j\<leftarrow>[0..<Suc t].
                 exp (score h x t j) / (\<Sum>i\<leftarrow>[0..<Suc t]. exp (score h x t i))
                 * linear_row n_embd head_size (head_value h) (x ! j) ! c)
         [0..<head_size]"

text \<open>The first \<open>n\<close> columns of a tensor of ids.\<close>

definition columns :: "nat \<Rightarrow> long_tensor \<Rightarrow> long_tensor" where
  "columns n idx = \<lparr>size0 = size0 idx, size1 = n, rows = map (take n) (rows idx)\<rparr>"

text \<open>The iterations of the optimizer steps and of the printed lines in a trace, in order.\<close>

fun step_iters :: "event list \<Rightarrow> nat list" where
  "step_iters [] = []"
| "step_iters (Stepped i # es) = i # step_iters es"
| "step_iters (Printed i lt lv # es) = step_iters es"

fun print_iters :: "event list \<Rightarrow> nat list" where
  "print_iters [] = []"
| "print_iters (Printed i lt lv # es) = i # print_iters es"
| "print_iters (Stepped i # es) = print_iters es"

text \<open>A state to start from.\<close>

definition example_world :: "unit world" where
  "example_world =
     \<lparr>m_training = True, m_weights = example_weights, optimizer = (),
      generator = (\<lambda>k. 0), masks = (\<lambda>k b l. no_noise), trace = []\<rparr>"

section \<open>Vocabulary: the codecs are inverse\<close>

lemma fold_upd_map_of:
  "fold (\<lambda>(k, v) m. m(k \<mapsto> v)) kvs m = m ++ map_of (rev kvs)"
  by (induction kvs arbitrary: m) (auto simp: map_add_def fun_eq_iff split: option.splits)

lemma dict_of_Some_iff:
  assumes "distinct (map fst kvs)"
  shows "dict_of kvs k = Some v \<longleftrightarrow> (k, v) \<in> set kvs"
proof -
  have "distinct (map fst (rev kvs))"
    using assms by (simp add: rev_map[symmetric])
  then have "map_of (rev kvs) k = Some v \<longleftrightarrow> (k, v) \<in> set (rev kvs)"
    by (rule map_of_eq_Some_iff)
  then show ?thesis
    by (simp add: dict_of_def fold_upd_map_of)
qed

lemma chars_sorted: "sorted (chars text)"
  and chars_distinct: "distinct (chars text)"
  and set_chars: "set (chars text) = set text"
  by (simp_all add: chars_def)

lemma itos_Some_iff:
  "itos text i = Some c \<longleftrightarrow> i < vocab_size text \<and> chars text ! i = c"
  unfolding itos_def vocab_size_def
  by (subst dict_of_Some_iff) (auto simp: in_set_enumerate_eq)

lemma stoi_Some_iff:
  "stoi text c = Some i \<longleftrightarrow> i < vocab_size text \<and> chars text ! i = c"
proof -
  have "map fst (map (\<lambda>(i, ch). (ch, i)) (List.enumerate 0 (chars text))) = chars text"
    by (simp add: o_def case_prod_unfold)
  then have d: "distinct (map fst (map (\<lambda>(i, ch). (ch, i)) (List.enumerate 0 (chars text))))"
    by (simp add: chars_distinct)
  show ?thesis
    unfolding stoi_def vocab_size_def dict_of_Some_iff[OF d]
    by (auto simp: in_set_enumerate_eq)
qed

lemma stoi_corpus:
  assumes "c \<in> set text"
  shows "\<exists>i. stoi text c = Some i \<and> i < vocab_size text \<and> itos text i = Some c"
proof -
  from assms have "c \<in> set (chars text)" by (simp add: set_chars)
  then obtain i where "i < length (chars text)" "chars text ! i = c"
    by (auto simp: in_set_conv_nth)
  then show ?thesis
    by (auto simp: stoi_Some_iff itos_Some_iff vocab_size_def)
qed

lemma encode_decode:
  assumes "set s \<subseteq> set text"
  shows "\<exists>l. encode text s = Inr l \<and> decode text l = Inr s \<and> length l = length s
             \<and> list_all (\<lambda>i. i < vocab_size text) l"
  using assms
proof (induction s)
  case Nil
  then show ?case by simp
next
  case (Cons c s)
  then obtain l where l: "encode text s = Inr l" "decode text l = Inr s" "length l = length s"
      "list_all (\<lambda>i. i < vocab_size text) l"
    by auto
  from Cons.prems obtain i where i: "stoi text c = Some i" "i < vocab_size text" "itos text i = Some c"
    using stoi_corpus[of c] by auto
  show ?case
    by (simp add: l i)
qed

text \<open>The id of a character is the number of corpus characters below it.\<close>

lemma sorted_distinct_nth_card:
  fixes xs :: "'a::linorder list"
  assumes "sorted xs" "distinct xs" "i < length xs"
  shows "card {d \<in> set xs. d < xs ! i} = i"
proof -
  have "{d \<in> set xs. d < xs ! i} = set (take i xs)"
  proof (intro set_eqI iffI)
    fix d assume "d \<in> {d \<in> set xs. d < xs ! i}"
    then obtain j where j: "j < length xs" "xs ! j = d" "d < xs ! i"
      by (auto simp: in_set_conv_nth)
    have "j < i"
    proof (rule ccontr)
      assume "\<not> j < i"
      then have "i \<le> j" by simp
      then have "xs ! i \<le> xs ! j"
        using assms(1) j(1) by (simp add: sorted_nth_mono)
      with j show False by simp
    qed
    with j assms(3) show "d \<in> set (take i xs)"
      by (auto simp: in_set_conv_nth)
  next
    fix d assume "d \<in> set (take i xs)"
    then obtain j where j: "j < i" "xs ! j = d"
      using assms(3) by (auto simp: in_set_conv_nth)
    have "xs ! j \<le> xs ! i"
      using sorted_nth_mono[OF assms(1), of j i] j(1) assms(3) by simp
    moreover have "xs ! j \<noteq> xs ! i"
    proof -
      have "j < length xs" "j \<noteq> i" using j(1) assms(3) by simp_all
      then show ?thesis
        using nth_eq_iff_index_eq[OF assms(2), of j i] assms(3) by simp
    qed
    ultimately show "d \<in> {d \<in> set xs. d < xs ! i}"
      using j assms(3) by auto
  qed
  moreover have "card (set (take i xs)) = i"
    using assms by (simp add: distinct_card)
  ultimately show ?thesis by simp
qed

lemma stoi_rank:
  assumes "c \<in> set text"
  shows "stoi text c = Some (card {d \<in> set text. d < c})"
proof -
  from assms have "c \<in> set (chars text)" by (simp add: set_chars)
  then obtain i where i: "i < length (chars text)" "chars text ! i = c"
    by (auto simp: in_set_conv_nth)
  have "card {d \<in> set (chars text). d < chars text ! i} = i"
    using chars_sorted chars_distinct i(1) by (rule sorted_distinct_nth_card)
  then have "card {d \<in> set text. d < c} = i"
    by (simp add: set_chars i)
  with i show ?thesis
    by (simp add: stoi_Some_iff vocab_size_def)
qed

text \<open>
  Claim C9. For every string \<open>s\<close> made of corpus characters, \<open>encode\<close> succeeds and
  \<open>decode\<close> of its result gives \<open>s\<close> back; every id is below \<open>vocab_size\<close>; the id of a
  character is its rank in the sorted order of the corpus characters (the number of
  corpus characters below it), and distinct corpus characters get distinct ids.
\<close>

theorem vocabulary_round_trip:
  assumes "set s \<subseteq> set text"
  shows "\<exists>l. encode text s = Inr l \<and> decode text l = Inr s
             \<and> list_all (\<lambda>i. i < vocab_size text) l
             \<and> l = map (\<lambda>c. card {d \<in> set text. d < c}) s
             \<and> inj_on (stoi text) (set text)"
proof -
  obtain l where l: "encode text s = Inr l" "decode text l = Inr s"
      "list_all (\<lambda>i. i < vocab_size text) l"
    using encode_decode[OF assms] by auto
  have "l = map (\<lambda>c. card {d \<in> set text. d < c}) s"
    using assms l(1)
  proof (induction s arbitrary: l)
    case Nil
    then show ?case by simp
  next
    case (Cons c s)
    then show ?case
      by (auto simp: stoi_rank split: sum.splits)
  qed
  moreover have "inj_on (stoi text) (set text)"
  proof (rule inj_onI)
    fix a b assume ab: "a \<in> set text" "b \<in> set text" "stoi text a = stoi text b"
    obtain i where "stoi text a = Some i" using stoi_corpus[OF ab(1)] by auto
    moreover from this ab(3) have "stoi text b = Some i" by simp
    ultimately show "a = b" by (auto simp: stoi_Some_iff)
  qed
  ultimately show ?thesis using l by auto
qed

theorem vocabulary_round_trip_witness:
  "encode [104, 101, 108, 108, 111::nat] [104, 101, 108, 108] = Inr [1, 0, 2, 2]
   \<and> decode [104, 101, 108, 108, 111::nat] [1, 0, 2, 2] = Inr [104, 101, 108, 108]"
proof -
  have c: "{d::nat. (d = 104 \<or> d = 101 \<or> d = 108 \<or> d = 111) \<and> d < 104} = {101}"
          "{d::nat. (d = 104 \<or> d = 101 \<or> d = 108 \<or> d = 111) \<and> d < 101} = {}"
          "{d::nat. (d = 104 \<or> d = 101 \<or> d = 108 \<or> d = 111) \<and> d < 108} = {101, 104}"
    by auto
  obtain l where l: "encode [104, 101, 108, 108, 111::nat] [104, 101, 108, 108] = Inr l"
      "decode [104, 101, 108, 108, 111::nat] l = Inr [104, 101, 108, 108]"
      "l = map (\<lambda>c. card {d \<in> set [104, 101, 108, 108, 111::nat]. d < c}) [104, 101, 108, 108]"
    using vocabulary_round_trip[of "[104, 101, 108, 108]" "[104, 101, 108, 108, 111::nat]"]
    by auto
  from l(3) have "l = [1, 0, 2, 2]"
    by (simp add: c)
  with l(1,2) show ?thesis by simp
qed

section \<open>The batch sampler\<close>

lemma batch_size_pos: "0 < batch_size"
  by (simp add: batch_size_def)

lemma torch_stack_Inr:
  assumes "rs \<noteq> []" "list_all (\<lambda>r. length r = n) rs"
  shows "torch_stack rs = Inr \<lparr>size0 = length rs, size1 = n, rows = rs\<rparr>"
proof -
  from assms(1) obtain r rs' where rs: "rs = r # rs'" by (cases rs) auto
  with assms(2) have "length r = n" by simp
  with assms(2) rs show ?thesis
    by (simp add: torch_stack_def)
qed

lemma length_slice: "j \<le> length xs \<Longrightarrow> length (slice xs i j) = j - i"
  by (simp add: slice_def)

lemma nth_slice: "j \<le> length xs \<Longrightarrow> k < j - i \<Longrightarrow> slice xs i j ! k = xs ! (i + k)"
  by (simp add: slice_def)

lemma offsets_bound:
  assumes "block_size < length d" "i \<in> set (offsets d g)"
  shows "i + block_size < length d"
proof -
  from assms have "i < length d - block_size" by (auto simp: offsets_def)
  then show ?thesis by simp
qed

lemma x_rows_length:
  assumes "block_size < length d"
  shows "list_all (\<lambda>r. length r = block_size) (map (\<lambda>i. slice d i (i + block_size)) (offsets d g))"
  unfolding list_all_iff
proof
  fix r assume "r \<in> set (map (\<lambda>i. slice d i (i + block_size)) (offsets d g))"
  then obtain i where i: "i \<in> set (offsets d g)" "r = slice d i (i + block_size)" by auto
  from offsets_bound[OF assms i(1)] have "i + block_size \<le> length d" by simp
  then show "length r = block_size" by (simp add: i(2) length_slice)
qed

lemma y_rows_length:
  assumes "block_size < length d"
  shows "list_all (\<lambda>r. length r = block_size)
           (map (\<lambda>i. slice d (i + 1) (i + block_size + 1)) (offsets d g))"
  unfolding list_all_iff
proof
  fix r assume "r \<in> set (map (\<lambda>i. slice d (i + 1) (i + block_size + 1)) (offsets d g))"
  then obtain i where i: "i \<in> set (offsets d g)" "r = slice d (i + 1) (i + block_size + 1)" by auto
  from offsets_bound[OF assms i(1)] have "i + block_size + 1 \<le> length d" by simp
  then show "length r = block_size" by (simp add: i(2) length_slice)
qed

lemma get_batch_long:
  assumes "block_size < length d" "d = (if split = ''train'' then train else val)"
  shows "get_batch train val split g =
    Inr ((\<lparr>size0 = batch_size, size1 = block_size,
            rows = map (\<lambda>i. slice d i (i + block_size)) (offsets d g)\<rparr>,
          \<lparr>size0 = batch_size, size1 = block_size,
            rows = map (\<lambda>i. slice d (i + 1) (i + block_size + 1)) (offsets d g)\<rparr>),
         advance batch_size g)"
proof -
  let ?ix = "offsets d g"
  have hi: "nat (int (length d) - int block_size) = length d - block_size"
    by simp
  have r: "torch_randint (int (length d) - int block_size) batch_size g = Inr (?ix, advance batch_size g)"
    using assms(1) by (simp add: torch_randint_def offsets_def hi)
  have ne: "?ix \<noteq> []"
    using batch_size_pos by (simp add: offsets_def)
  note lx = x_rows_length[OF assms(1), of g]
  note ly = y_rows_length[OF assms(1), of g]
  have len: "length ?ix = batch_size" by (simp add: offsets_def)
  have x: "torch_stack (map (\<lambda>i. slice d i (i + block_size)) ?ix) =
      Inr \<lparr>size0 = batch_size, size1 = block_size, rows = map (\<lambda>i. slice d i (i + block_size)) ?ix\<rparr>"
    using torch_stack_Inr[OF _ lx] ne len by simp
  have y: "torch_stack (map (\<lambda>i. slice d (i + 1) (i + block_size + 1)) ?ix) =
      Inr \<lparr>size0 = batch_size, size1 = block_size, rows = map (\<lambda>i. slice d (i + 1) (i + block_size + 1)) ?ix\<rparr>"
    using torch_stack_Inr[OF _ ly] ne len by simp
  show ?thesis
    unfolding get_batch_def Let_def assms(2)[symmetric]
    using r x y by simp
qed

lemma get_batch_short:
  assumes "length d \<le> block_size" "d = (if split = ''train'' then train else val)"
  shows "get_batch train val split g = Inl RuntimeError"
  unfolding get_batch_def Let_def assms(2)[symmetric]
  using assms(1) by (simp add: torch_randint_def)


lemma nth_offsets: "b < batch_size \<Longrightarrow> offsets d g ! b = g b mod (length d - block_size)"
  by (simp add: offsets_def)

lemma get_batch_Inr_long:
  assumes "get_batch train val split g = Inr r" "d = (if split = ''train'' then train else val)"
  shows "block_size < length d"
proof (rule ccontr)
  assume "\<not> block_size < length d"
  then have "length d \<le> block_size" by simp
  from get_batch_short[OF this assms(2)] assms(1) show False by simp
qed

lemma get_batch_shapes:
  assumes ok: "get_batch train val split g = Inr ((x, y), g')"
    and d: "d = (if split = ''train'' then train else val)"
  shows "size0 x = batch_size \<and> size1 x = block_size \<and> well_shaped x \<and>
         size0 y = batch_size \<and> size1 y = block_size \<and> well_shaped y"
proof -
  have long: "block_size < length d"
    using get_batch_Inr_long[OF ok d] .
  note eq = ok[unfolded get_batch_long[OF long d]]
  from eq have x: "x = \<lparr>size0 = batch_size, size1 = block_size,
            rows = map (\<lambda>i. slice d i (i + block_size)) (offsets d g)\<rparr>"
    and y: "y = \<lparr>size0 = batch_size, size1 = block_size,
            rows = map (\<lambda>i. slice d (i + 1) (i + block_size + 1)) (offsets d g)\<rparr>"
    by simp_all
  have len: "length (offsets d g) = batch_size" by (simp add: offsets_def)
  have "well_shaped x"
    using x_rows_length[OF long, of g] len by (simp add: x well_shaped_def)
  moreover have "well_shaped y"
    using y_rows_length[OF long, of g] len by (simp add: y well_shaped_def)
  ultimately show ?thesis by (simp add: x y)
qed

lemma get_batch_row:
  assumes ok: "get_batch train val split g = Inr ((x, y), g')"
    and d: "d = (if split = ''train'' then train else val)"
    and b: "b < batch_size"
  defines "i \<equiv> g b mod (length d - block_size)"
  shows "i + block_size < length d"
    and "rows x ! b = slice d i (i + block_size)"
    and "rows y ! b = slice d (i + 1) (i + block_size + 1)"
    and "\<forall>j<block_size. rows x ! b ! j = d ! (i + j) \<and> rows y ! b ! j = d ! (i + j + 1)"
    and "\<forall>j. j + 1 < block_size \<longrightarrow> rows y ! b ! j = rows x ! b ! (j + 1)"
proof -
  have long: "block_size < length d"
    using get_batch_Inr_long[OF ok d] .
  note eq = ok[unfolded get_batch_long[OF long d]]
  from eq have x: "x = \<lparr>size0 = batch_size, size1 = block_size,
            rows = map (\<lambda>i. slice d i (i + block_size)) (offsets d g)\<rparr>"
    and y: "y = \<lparr>size0 = batch_size, size1 = block_size,
            rows = map (\<lambda>i. slice d (i + 1) (i + block_size + 1)) (offsets d g)\<rparr>"
    by simp_all
  have len: "length (offsets d g) = batch_size" by (simp add: offsets_def)
  have "offsets d g ! b \<in> set (offsets d g)"
    using b len by simp
  then show i: "i + block_size < length d"
    using offsets_bound[OF long, of "offsets d g ! b" g] b by (simp add: nth_offsets i_def)
  show rx: "rows x ! b = slice d i (i + block_size)"
    using b len by (simp add: x nth_offsets i_def)
  show ry: "rows y ! b = slice d (i + 1) (i + block_size + 1)"
    using b len by (simp add: y nth_offsets i_def)
  have ex: "rows x ! b ! j = d ! (i + j)" if "j < block_size" for j
    unfolding rx using nth_slice[of "i + block_size" d j i] i that by simp
  have ey: "rows y ! b ! j = d ! (i + j + 1)" if "j < block_size" for j
    unfolding ry using nth_slice[of "i + block_size + 1" d j "i + 1"] i that by simp
  show "\<forall>j<block_size. rows x ! b ! j = d ! (i + j) \<and> rows y ! b ! j = d ! (i + j + 1)"
    using ex ey by blast
  show "\<forall>j. j + 1 < block_size \<longrightarrow> rows y ! b ! j = rows x ! b ! (j + 1)"
  proof (intro allI impI)
    fix j assume "j + 1 < block_size"
    then show "rows y ! b ! j = rows x ! b ! (j + 1)"
      using ex[of "j + 1"] ey[of j] by simp
  qed
qed

lemma get_batch_attainable:
  assumes d: "d = (if split = ''train'' then train else val)"
    and a: "length offs = batch_size" "list_all (\<lambda>i. i + block_size < length d) offs"
  shows "\<exists>x y g'. get_batch train val split (\<lambda>k. offs ! k) = Inr ((x, y), g') \<and>
               rows x = map (\<lambda>i. slice d i (i + block_size)) offs \<and>
               rows y = map (\<lambda>i. slice d (i + 1) (i + block_size + 1)) offs"
proof -
  have "offs \<noteq> []" using a batch_size_pos by auto
  then obtain i0 where "i0 \<in> set offs" by (cases offs) auto
  with a have long: "block_size < length d" by (auto simp: list_all_iff)
  have "offsets d (\<lambda>k. offs ! k) = offs"
  proof (rule nth_equalityI)
    show "length (offsets d (\<lambda>k. offs ! k)) = length offs"
      using a by (simp add: offsets_def)
  next
    fix k assume "k < length (offsets d (\<lambda>k. offs ! k))"
    then have k: "k < batch_size" by (simp add: offsets_def)
    with a have "offs ! k + block_size < length d"
      by (auto simp: list_all_length)
    then have "offs ! k < length d - block_size" by simp
    then show "offsets d (\<lambda>k. offs ! k) ! k = offs ! k"
      using k by (simp add: nth_offsets)
  qed
  then show ?thesis
    by (simp add: get_batch_long[OF long d])
qed

lemma get_batch_row_ex:
  assumes ok: "get_batch train val split g = Inr ((x, y), g')"
    and d: "d = (if split = ''train'' then train else val)"
    and b: "b < batch_size"
  shows "\<exists>i. i = g b mod (length d - block_size) \<and> i + block_size < length d \<and>
               rows x ! b = slice d i (i + block_size) \<and>
               rows y ! b = slice d (i + 1) (i + block_size + 1) \<and>
               (\<forall>j<block_size. rows x ! b ! j = d ! (i + j) \<and> rows y ! b ! j = d ! (i + j + 1)) \<and>
               (\<forall>j. j + 1 < block_size \<longrightarrow> rows y ! b ! j = rows x ! b ! (j + 1))"
  apply (rule exI[of _ "g b mod (length d - block_size)"])
  using get_batch_row[OF ok d b] by (intro conjI refl) assumption+

text \<open>
  Claim C6 (amended). In every batch that \<open>get_batch\<close> returns, both tensors have shape
  \<open>(batch_size, block_size)\<close>; row \<open>b\<close> of the input is the window of the split starting at
  the offset \<open>i = g b mod (len - block_size)\<close>, which lies in \<open>0 .. len - block_size - 1\<close>;
  row \<open>b\<close> of the target is the window starting at \<open>i + 1\<close>, so \<open>Y[b][j]\<close> is the corpus
  element after \<open>X[b][j]\<close>; each row's offset comes from its own raw draw, and every
  vector of offsets in that range is drawn by some generator state.
\<close>

theorem get_batch_targets_shifted:
  assumes d: "d = (if split = ''train'' then train else val)"
  shows "(\<forall>x y g'. get_batch train val split g = Inr ((x, y), g') \<longrightarrow>
            size0 x = batch_size \<and> size1 x = block_size \<and> well_shaped x \<and>
            size0 y = batch_size \<and> size1 y = block_size \<and> well_shaped y \<and>
            (\<forall>b<batch_size. \<exists>i. i = g b mod (length d - block_size) \<and> i + block_size < length d \<and>
               rows x ! b = slice d i (i + block_size) \<and>
               rows y ! b = slice d (i + 1) (i + block_size + 1) \<and>
               (\<forall>j<block_size. rows x ! b ! j = d ! (i + j) \<and> rows y ! b ! j = d ! (i + j + 1)) \<and>
               (\<forall>j. j + 1 < block_size \<longrightarrow> rows y ! b ! j = rows x ! b ! (j + 1)))) \<and>
         (\<forall>offs. length offs = batch_size \<and> list_all (\<lambda>i. i + block_size < length d) offs \<longrightarrow>
            (\<exists>x y g'. get_batch train val split (\<lambda>k. offs ! k) = Inr ((x, y), g') \<and>
               rows x = map (\<lambda>i. slice d i (i + block_size)) offs \<and>
               rows y = map (\<lambda>i. slice d (i + 1) (i + block_size + 1)) offs))"
proof (rule conjI)
  show "\<forall>x y g'. get_batch train val split g = Inr ((x, y), g') \<longrightarrow>
            size0 x = batch_size \<and> size1 x = block_size \<and> well_shaped x \<and>
            size0 y = batch_size \<and> size1 y = block_size \<and> well_shaped y \<and>
            (\<forall>b<batch_size. \<exists>i. i = g b mod (length d - block_size) \<and> i + block_size < length d \<and>
               rows x ! b = slice d i (i + block_size) \<and>
               rows y ! b = slice d (i + 1) (i + block_size + 1) \<and>
               (\<forall>j<block_size. rows x ! b ! j = d ! (i + j) \<and> rows y ! b ! j = d ! (i + j + 1)) \<and>
               (\<forall>j. j + 1 < block_size \<longrightarrow> rows y ! b ! j = rows x ! b ! (j + 1)))"
  proof (intro allI impI)
    fix x y g'
    assume ok: "get_batch train val split g = Inr ((x, y), g')"
    have r: "\<forall>b<batch_size. \<exists>i. i = g b mod (length d - block_size) \<and> i + block_size < length d \<and>
               rows x ! b = slice d i (i + block_size) \<and>
               rows y ! b = slice d (i + 1) (i + block_size + 1) \<and>
               (\<forall>j<block_size. rows x ! b ! j = d ! (i + j) \<and> rows y ! b ! j = d ! (i + j + 1)) \<and>
               (\<forall>j. j + 1 < block_size \<longrightarrow> rows y ! b ! j = rows x ! b ! (j + 1))"
      using get_batch_row_ex[OF ok d] by (intro allI impI)
    from get_batch_shapes[OF ok d] r
    show "size0 x = batch_size \<and> size1 x = block_size \<and> well_shaped x \<and>
            size0 y = batch_size \<and> size1 y = block_size \<and> well_shaped y \<and>
            (\<forall>b<batch_size. \<exists>i. i = g b mod (length d - block_size) \<and> i + block_size < length d \<and>
               rows x ! b = slice d i (i + block_size) \<and>
               rows y ! b = slice d (i + 1) (i + block_size + 1) \<and>
               (\<forall>j<block_size. rows x ! b ! j = d ! (i + j) \<and> rows y ! b ! j = d ! (i + j + 1)) \<and>
               (\<forall>j. j + 1 < block_size \<longrightarrow> rows y ! b ! j = rows x ! b ! (j + 1)))"
      by (simp only: simp_thms)
  qed
next
  show "\<forall>offs. length offs = batch_size \<and> list_all (\<lambda>i. i + block_size < length d) offs \<longrightarrow>
            (\<exists>x y g'. get_batch train val split (\<lambda>k. offs ! k) = Inr ((x, y), g') \<and>
               rows x = map (\<lambda>i. slice d i (i + block_size)) offs \<and>
               rows y = map (\<lambda>i. slice d (i + 1) (i + block_size + 1)) offs)"
    using get_batch_attainable[OF d] by (intro allI impI) (erule conjE)
qed

text \<open>
  The offset \<open>len - block_size\<close> itself is never drawn: on a split of length
  \<open>block_size + 1\<close> no generator state makes the first row start at offset 1.
\<close>

theorem get_batch_offset_range_counterexample:
  "\<not> (\<exists>g x y g'. get_batch (replicate block_size 0 @ [1]) [] ''train'' g = Inr ((x, y), g') \<and>
        rows x ! 0 = slice (replicate block_size 0 @ [1]) 1 (1 + block_size))"
proof
  let ?d = "replicate block_size (0::nat) @ [1]"
  assume "\<exists>g x y g'. get_batch ?d [] ''train'' g = Inr ((x, y), g') \<and>
        rows x ! 0 = slice ?d 1 (1 + block_size)"
  then obtain g x y g' where ok: "get_batch ?d [] ''train'' g = Inr ((x, y), g')"
    and r: "rows x ! 0 = slice ?d 1 (1 + block_size)" by blast
  have long: "block_size < length ?d" by simp
  have d: "?d = (if ''train'' = ''train'' then ?d else [])" by simp
  from ok[unfolded get_batch_long[OF long d]]
  have "rows x ! 0 = slice ?d (offsets ?d g ! 0) (offsets ?d g ! 0 + block_size)"
    using batch_size_pos by (auto simp: offsets_def)
  also have "offsets ?d g ! 0 = 0"
    using batch_size_pos by (simp add: offsets_def)
  finally have "rows x ! 0 = replicate block_size 0"
    by (simp add: slice_def)
  moreover have "slice ?d 1 (1 + block_size) ! (block_size - 1) = 1"
    by (simp add: slice_def block_size_def nth_append)
  moreover have "replicate block_size (0::nat) ! (block_size - 1) = 0"
    by (simp add: block_size_def)
  ultimately show False using r by simp
qed

text \<open>
  Claim C10. When the chosen split is no longer than \<open>block_size\<close>, \<open>get_batch\<close> raises
  (the range of the offset draw is empty); when it is longer, \<open>get_batch\<close> returns, and
  every input window and every target window lies within the split and has the full
  length \<open>block_size\<close>.
\<close>

theorem get_batch_split_size:
  assumes d: "d = (if split = ''train'' then train else val)"
  shows "(length d \<le> block_size \<longrightarrow> get_batch train val split g = Inl RuntimeError) \<and>
         (block_size < length d \<longrightarrow>
            (\<exists>x y g'. get_batch train val split g = Inr ((x, y), g') \<and>
               (\<forall>b<batch_size. \<exists>i. i + block_size + 1 \<le> length d \<and>
                  rows x ! b = slice d i (i + block_size) \<and> length (rows x ! b) = block_size \<and>
                  rows y ! b = slice d (i + 1) (i + block_size + 1) \<and> length (rows y ! b) = block_size)))"
proof (intro conjI impI)
  assume "length d \<le> block_size"
  then show "get_batch train val split g = Inl RuntimeError"
    using d by (rule get_batch_short)
next
  assume long: "block_size < length d"
  let ?x = "\<lparr>size0 = batch_size, size1 = block_size,
            rows = map (\<lambda>i. slice d i (i + block_size)) (offsets d g)\<rparr>"
  let ?y = "\<lparr>size0 = batch_size, size1 = block_size,
            rows = map (\<lambda>i. slice d (i + 1) (i + block_size + 1)) (offsets d g)\<rparr>"
  have "\<exists>i. i + block_size + 1 \<le> length d \<and>
                  rows ?x ! b = slice d i (i + block_size) \<and> length (rows ?x ! b) = block_size \<and>
                  rows ?y ! b = slice d (i + 1) (i + block_size + 1) \<and> length (rows ?y ! b) = block_size"
    if b: "b < batch_size" for b
  proof -
    let ?i = "offsets d g ! b"
    have "?i < length d - block_size"
      using long b by (simp add: nth_offsets)
    then have i: "?i + block_size + 1 \<le> length d" by simp
    have len: "length (offsets d g) = batch_size" by (simp add: offsets_def)
    show ?thesis
      using i b len by (intro exI[of _ ?i]) (simp add: length_slice)
  qed
  then show "\<exists>x y g'. get_batch train val split g = Inr ((x, y), g') \<and>
               (\<forall>b<batch_size. \<exists>i. i + block_size + 1 \<le> length d \<and>
                  rows x ! b = slice d i (i + block_size) \<and> length (rows x ! b) = block_size \<and>
                  rows y ! b = slice d (i + 1) (i + block_size + 1) \<and> length (rows y ! b) = block_size)"
    unfolding get_batch_long[OF long d] by blast
qed


theorem get_batch_targets_shifted_witness:
  "\<exists>x y g'. get_batch (replicate (Suc block_size) 0) [] ''train''
               (\<lambda>k. replicate batch_size 0 ! k) = Inr ((x, y), g') \<and>
             size0 x = batch_size \<and> size1 x = block_size \<and> well_shaped y"
proof -
  let ?d = "replicate (Suc block_size) (0::nat)"
  let ?offs = "replicate batch_size (0::nat)"
  have d: "?d = (if ''train'' = ''train'' then ?d else [])" by simp
  note t = get_batch_targets_shifted[OF d, of "\<lambda>k. ?offs ! k"]
  have "length ?offs = batch_size \<and> list_all (\<lambda>i. i + block_size < length ?d) ?offs"
    by (simp add: list_all_iff)
  with t obtain x y g' where
    ok: "get_batch ?d [] ''train'' (\<lambda>k. ?offs ! k) = Inr ((x, y), g')"
    by blast
  with t have "size0 x = batch_size \<and> size1 x = block_size \<and> well_shaped y"
    by blast
  with ok show ?thesis by blast
qed

theorem get_batch_split_size_witness:
  "get_batch [] [] ''train'' (\<lambda>k. 0) = Inl RuntimeError \<and>
   (\<exists>x y g'. get_batch [] (replicate (Suc block_size) 0) ''val'' (\<lambda>k. 0) = Inr ((x, y), g') \<and>
      length (rows x ! 0) = block_size \<and> length (rows y ! 0) = block_size)"
proof -
  have d1: "[] = (if ''train'' = ''train'' then [] else ([]::nat list))" by simp
  have d2: "replicate (Suc block_size) (0::nat) =
     (if ''val'' = ''train'' then [] else replicate (Suc block_size) 0)" by simp
  have "get_batch [] [] ''train'' (\<lambda>k. 0) = Inl RuntimeError"
    using get_batch_split_size[OF d1, of "\<lambda>k. 0"] by simp
  moreover have "\<exists>x y g'. get_batch [] (replicate (Suc block_size) 0) ''val'' (\<lambda>k. 0) = Inr ((x, y), g') \<and>
      length (rows x ! 0) = block_size \<and> length (rows y ! 0) = block_size"
    using get_batch_split_size[OF d2, of "\<lambda>k. 0"] batch_size_pos by auto
  ultimately show ?thesis by blast
qed

section \<open>The self-attention head\<close>

lemma sum_list_upt_zero_tail:
  fixes f :: "nat \<Rightarrow> real"
  assumes "t < T" "\<And>j. t < j \<Longrightarrow> j < T \<Longrightarrow> f j = 0"
  shows "(\<Sum>j\<leftarrow>[0..<T]. f j) = (\<Sum>j\<leftarrow>[0..<Suc t]. f j)"
proof -
  have "[0..<T] = [0..<Suc t] @ [Suc t..<T]"
    using assms(1) upt_add_eq_append[of 0 "Suc t" "T - Suc t"] by simp
  moreover have "map f [Suc t..<T] = map (\<lambda>j. 0) [Suc t..<T]"
    using assms(2) by (intro map_cong) auto
  then have "(\<Sum>j\<leftarrow>[Suc t..<T]. f j) = (\<Sum>j\<leftarrow>[Suc t..<T]. 0)"
    by (rule arg_cong)
  then have "(\<Sum>j\<leftarrow>[Suc t..<T]. f j) = 0"
    by simp
  ultimately show ?thesis by simp
qed

lemma length_F_softmax: "length (F_softmax ws) = length ws"
  by (simp add: F_softmax_def Let_def)


lemma F_softmax_masked: "i < length ws \<Longrightarrow> ws ! i = None \<Longrightarrow> F_softmax ws ! i = 0"
  by (simp add: F_softmax_def Let_def)

lemma exps_sum_nonneg:
  fixes ws :: "real option list"
  shows "0 \<le> sum_list (map (\<lambda>w. case w of None \<Rightarrow> 0 | Some r \<Rightarrow> exp r) ws)"
  by (induction ws) (auto split: option.splits)

lemma exps_sum_pos:
  fixes ws :: "real option list"
  assumes "Some r \<in> set ws"
  shows "0 < sum_list (map (\<lambda>w. case w of None \<Rightarrow> 0 | Some r \<Rightarrow> exp r) ws)"
  using assms
proof (induction ws)
  case Nil
  then show ?case by simp
next
  case (Cons w ws)
  note nn = exps_sum_nonneg[of ws]
  show ?case
  proof (cases "w = Some r")
    case True
    then show ?thesis using nn by (simp add: add_pos_nonneg)
  next
    case False
    with Cons have "0 < sum_list (map (\<lambda>w. case w of None \<Rightarrow> 0 | Some r \<Rightarrow> exp r) ws)" by simp
    then show ?thesis by (cases w) (simp_all add: add_pos_pos)
  qed
qed

lemma sum_list_div_const:
  fixes es :: "real list"
  shows "sum_list (map (\<lambda>e. e / c) es) = sum_list es / c"
  by (induction es) (simp_all add: add_divide_distrib)

lemma F_softmax_nonneg: "a \<in> set (F_softmax ws) \<Longrightarrow> 0 \<le> a"
  using exps_sum_nonneg[of ws]
  by (auto simp: F_softmax_def Let_def split: option.splits intro!: divide_nonneg_nonneg)

lemma F_softmax_sum:
  assumes "Some r \<in> set ws"
  shows "sum_list (F_softmax ws) = 1"
proof -
  let ?es = "map (\<lambda>w. case w of None \<Rightarrow> 0 | Some r \<Rightarrow> exp r) ws"
  have "F_softmax ws = map (\<lambda>e. e / sum_list ?es) ?es"
    by (simp only: F_softmax_def Let_def)
  then have "sum_list (F_softmax ws) = sum_list ?es / sum_list ?es"
    by (simp only: sum_list_div_const)
  with exps_sum_pos[OF assms] show ?thesis by simp
qed

lemma nn_Linear_Inr:
  assumes "list_all (\<lambda>v. length v = n_in) x"
  shows "nn_Linear n_in n_out l x =
     Inr (map (\<lambda>v. map (\<lambda>out. (\<Sum>i\<leftarrow>[0..<n_in]. weight l out i * v ! i) +
                                    (case bias l of None \<Rightarrow> 0 | Some b \<Rightarrow> b out))
                              [0..<n_out]) x)"
  using assms by (simp add: nn_Linear_def)

lemma nn_Linear_Inl:
  assumes "\<not> list_all (\<lambda>v. length v = n_in) x"
  shows "nn_Linear n_in n_out l x = Inl RuntimeError"
  using assms by (simp add: nn_Linear_def)

lemma Head_wei_eq:
  assumes T: "length x \<le> block_size" and w: "list_all (\<lambda>v. length v = n_embd) x"
  shows "Head_wei h x =
     Inr (map (\<lambda>t. F_softmax (map (\<lambda>j. if j \<le> t then Some (score h x t j) else None)
                                   [0..<length x])) [0..<length x])"
proof -
  have rows: "map (\<lambda>t. map (\<lambda>j. if tril t j = 0 then None
        else Some (map (\<lambda>qt. map (\<lambda>kj. dot qt kj * real (length (hd x)) powr (- (1 / 2)))
            (map (\<lambda>v. map (\<lambda>out. (\<Sum>i\<leftarrow>[0..<n_embd]. weight (head_key h) out i * v ! i) +
                                    (case bias (head_key h) of None \<Rightarrow> 0 | Some b \<Rightarrow> b out))
                              [0..<head_size]) x))
            (map (\<lambda>v. map (\<lambda>out. (\<Sum>i\<leftarrow>[0..<n_embd]. weight (head_query h) out i * v ! i) +
                                    (case bias (head_query h) of None \<Rightarrow> 0 | Some b \<Rightarrow> b out))
                              [0..<head_size]) x) ! t ! j)) [0..<length x]) [0..<length x]
      = map (\<lambda>t. map (\<lambda>j. if j \<le> t then Some (score h x t j) else None) [0..<length x]) [0..<length x]"
    by (intro map_cong refl) (simp add: tril_def score_def)
  show ?thesis
    unfolding Head_wei_def Let_def nn_Linear_Inr[OF w] masked_fill_def
    using T by (simp add: rows o_def)
qed


lemma wei_row:
  fixes s :: "nat \<Rightarrow> real"
  assumes t: "t < T"
  defines "row \<equiv> map (\<lambda>j. if j \<le> t then Some (s j) else None) [0..<T]"
  shows "length (F_softmax row) = T"
    and "\<forall>j<T. 0 \<le> F_softmax row ! j"
    and "(\<Sum>j\<leftarrow>[0..<Suc t]. F_softmax row ! j) = 1"
    and "\<forall>j<T. t < j \<longrightarrow> F_softmax row ! j = 0"
proof -
  show len: "length (F_softmax row) = T"
    by (simp add: length_F_softmax row_def)
  show "\<forall>j<T. 0 \<le> F_softmax row ! j"
    using len F_softmax_nonneg[of _ row] nth_mem[of _ "F_softmax row"] by auto
  show z: "\<forall>j<T. t < j \<longrightarrow> F_softmax row ! j = 0"
    by (auto intro!: F_softmax_masked simp: row_def)
  have "Some (s t) \<in> set row"
    using t by (auto simp: row_def intro!: image_eqI[of _ _ t])
  then have "sum_list (F_softmax row) = 1"
    by (rule F_softmax_sum)
  moreover have "sum_list (F_softmax row) = (\<Sum>j\<leftarrow>[0..<T]. F_softmax row ! j)"
    using map_nth[of "F_softmax row"] len by simp
  moreover have "(\<Sum>j\<leftarrow>[0..<T]. F_softmax row ! j) = (\<Sum>j\<leftarrow>[0..<Suc t]. F_softmax row ! j)"
    using z by (intro sum_list_upt_zero_tail t) simp
  ultimately show "(\<Sum>j\<leftarrow>[0..<Suc t]. F_softmax row ! j) = 1" by simp
qed

lemma Head_forward_eq:
  assumes T: "length x \<le> block_size" and w: "list_all (\<lambda>v. length v = n_embd) x"
    and wei: "Head_wei h x = Inr wei" and v: "nn_Linear n_embd head_size (head_value h) x = Inr v"
  shows "Head_forward training keep h x = Inr (matmul wei v)"
  by (simp add: Head_forward_def wei v Let_def)




lemma sum_list_pick:
  fixes a :: real
  shows "(\<Sum>i\<leftarrow>[0..<n]. (if i = 0 then 1 else 0) * a) = (if n = 0 then 0 else a)"
  by (induction n) auto

lemma sum_list_pick_replicate:
  fixes a :: real
  shows "(\<Sum>i\<leftarrow>[0..<n]. (if i = 0 then 1 else 0) * replicate n a ! i) = (if n = 0 then 0 else a)"
proof -
  have "map (\<lambda>i. (if i = 0 then 1 else 0) * replicate n a ! i) [0..<n]
      = map (\<lambda>i. (if i = 0 then 1 else 0) * a) [0..<n]"
    by (rule map_cong) auto
  then show ?thesis
    by (simp only: sum_list_pick)
qed

text \<open>
  Claim C2 (the code departs from it). In training mode, with a mask that drops every
  attention weight, the head still aggregates with the softmax weights: on one input
  row the output is the value row itself, where weights passed through dropout
  would give zeros.
\<close>

theorem Head_forward_dropout_discarded:
  "Head_forward True (\<lambda>t j. False) example_head [replicate n_embd 1] = Inr [replicate head_size 1]"
proof -
  let ?x = "[replicate n_embd (1::real)]"
  have T: "length ?x \<le> block_size" by (simp add: block_size_def)
  have w: "list_all (\<lambda>v. length v = n_embd) ?x" by simp
  have ne: "n_embd \<noteq> 0" by (simp add: n_embd_def)
  have v: "nn_Linear n_embd head_size (head_value example_head) ?x = Inr [replicate head_size 1]"
    unfolding nn_Linear_Inr[OF w]
    by (simp add: example_head_def pick_linear_def sum_list_pick_replicate ne map_replicate_const)
  have wei: "Head_wei example_head ?x = Inr [[1]]"
    unfolding Head_wei_eq[OF T w]
    by (simp add: F_softmax_def)
  show ?thesis
    unfolding Head_forward_eq[OF T w wei v]
    using map_nth[of "replicate head_size (1::real)"]
    by (simp add: matmul_def)
qed

section \<open>Shapes: where the layers return\<close>

lemma has_shapeI: "length x = T \<Longrightarrow> (\<And>v. v \<in> set x \<Longrightarrow> length v = C) \<Longrightarrow> has_shape x T C"
  by (simp add: has_shape_def list_all_iff)

lemma has_shapeD: "has_shape x T C \<Longrightarrow> length x = T"
  "has_shape x T C \<Longrightarrow> list_all (\<lambda>v. length v = C) x"
  "has_shape x T C \<Longrightarrow> v \<in> set x \<Longrightarrow> length v = C"
  "has_shape x T C \<Longrightarrow> t < T \<Longrightarrow> length (x ! t) = C"
  by (auto simp: has_shape_def list_all_iff)

lemma hm_constants: "n_head * head_size = n_embd" "0 < n_embd" "0 < head_size"
  by (simp_all add: n_head_def head_size_def n_embd_def)

lemma nn_Linear_shape:
  assumes "has_shape x T n_in"
  shows "\<exists>y. nn_Linear n_in n_out l x = Inr y \<and> has_shape y T n_out"
  using assms by (simp add: nn_Linear_def has_shape_def list_all_iff)

lemma nn_Linear_InrD:
  assumes "nn_Linear n_in n_out l x = Inr y"
  shows "has_shape x (length x) n_in" "has_shape y (length x) n_out"
  using assms by (auto simp: nn_Linear_def has_shape_def list_all_iff split: if_splits)

lemma nn_LayerNorm_shape:
  assumes "has_shape x T n"
  shows "\<exists>y. nn_LayerNorm n p x = Inr y \<and> has_shape y T n"
  using assms by (simp add: nn_LayerNorm_def has_shape_def list_all_iff Let_def)

lemma nn_LayerNorm_InrD:
  assumes "nn_LayerNorm n p x = Inr y"
  shows "has_shape x (length x) n" "has_shape y (length x) n"
  using assms by (auto simp: nn_LayerNorm_def has_shape_def list_all_iff Let_def split: if_splits)

lemma nn_ReLU_shape: "has_shape x T C \<Longrightarrow> has_shape (nn_ReLU x) T C"
  by (simp add: nn_ReLU_def has_shape_def list_all_iff)

lemma nn_Dropout_shape: "has_shape x T C \<Longrightarrow> has_shape (nn_Dropout training p keep x) T C"
  by (auto simp: nn_Dropout_def has_shape_def list_all_iff)

lemma tensor_add_shape:
  assumes "has_shape x T C" "has_shape y T C"
  shows "has_shape (tensor_add x y) T C"
proof (rule has_shapeI)
  show "length (tensor_add x y) = T"
    using assms by (simp add: tensor_add_def has_shape_def)
next
  fix v assume "v \<in> set (tensor_add x y)"
  then obtain a b where "a \<in> set x" "b \<in> set y" "v = map2 (+) a b"
    by (auto simp: tensor_add_def dest: set_zip_leftD set_zip_rightD)
  with assms show "length v = C"
    by (simp add: has_shapeD(3))
qed

lemma sequence_map_Inr_id: "sequence (map Inr ys) = Inr ys"
  by (induction ys) auto

lemma sequence_InrD: "sequence rs = Inr ys \<Longrightarrow> rs = map Inr ys"
  by (induction rs arbitrary: ys) (auto split: sum.splits)

lemma sequence_Inr_iff: "sequence rs = Inr ys \<longleftrightarrow> rs = map Inr ys"
  using sequence_map_Inr_id sequence_InrD by metis

lemma sequence_map_Inr:
  assumes "\<And>a. a \<in> set xs \<Longrightarrow> f a = Inr (g a)"
  shows "sequence (map f xs) = Inr (map g xs)"
  using assms by (simp add: sequence_Inr_iff)

lemma sequence_map_InrD:
  assumes "sequence (map f xs) = Inr ys"
  shows "length ys = length xs" "\<And>i. i < length xs \<Longrightarrow> f (xs ! i) = Inr (ys ! i)"
proof -
  from assms have eq: "map f xs = map Inr ys" by (simp add: sequence_Inr_iff)
  then show len: "length ys = length xs"
    using length_map[of f xs] length_map[of Inr ys] by simp
  fix i assume "i < length xs"
  with eq len show "f (xs ! i) = Inr (ys ! i)"
    using nth_map[of i xs f] nth_map[of i ys Inr] by simp
qed

lemma sequence_Inl:
  assumes "sequence rs = Inl e"
  shows "Inl e \<in> set rs"
  using assms by (induction rs) (auto split: sum.splits)

lemma Head_forward_InrD:
  assumes "Head_forward training keep h x = Inr y"
  shows "length x \<le> block_size" "has_shape x (length x) n_embd"
proof -
  from assms obtain wei where wei: "Head_wei h x = Inr wei"
    by (auto simp: Head_forward_def split: sum.splits)
  then obtain k q where k: "nn_Linear n_embd head_size (head_key h) x = Inr k"
    and m: "masked_fill (map (\<lambda>qt. map (\<lambda>kj. dot qt kj * real (length (hd x)) powr (- (1 / 2))) k) q)
              (length x) \<noteq> Inl RuntimeError"
    by (auto simp: Head_wei_def Let_def masked_fill_def split: sum.splits if_splits)
  from m show "length x \<le> block_size"
    by (auto simp: masked_fill_def split: if_splits)
  from k show "has_shape x (length x) n_embd"
    by (rule nn_Linear_InrD)
qed

lemma Head_forward_shape:
  assumes T: "T \<le> block_size" and x: "has_shape x T n_embd"
  shows "\<exists>y. Head_forward training keep h x = Inr y \<and> has_shape y T head_size"
proof -
  from x have len: "length x = T" and w: "list_all (\<lambda>v. length v = n_embd) x"
    by (simp_all add: has_shape_def)
  from T len have T': "length x \<le> block_size" by simp
  obtain v where v: "nn_Linear n_embd head_size (head_value h) x = Inr v"
    using nn_Linear_shape[OF x] by blast
  note e = Head_forward_eq[OF T' w Head_wei_eq[OF T' w] v, of training keep]
  have "has_shape (matmul (map (\<lambda>t. F_softmax (map (\<lambda>j. if j \<le> t then Some (score h x t j) else None)
                                   [0..<length x])) [0..<length x]) v) T head_size"
    by (rule has_shapeI) (auto simp: matmul_def len)
  with e show ?thesis by blast
qed

lemma length_concat_const:
  assumes "\<And>v. v \<in> set xss \<Longrightarrow> length v = n"
  shows "length (concat xss) = length xss * n"
  using assms by (induction xss) auto

lemma cat_last_shape:
  assumes "\<And>out. out \<in> set outs \<Longrightarrow> has_shape out T C"
  shows "has_shape (cat_last outs T) T (length outs * C)"
proof (rule has_shapeI)
  show "length (cat_last outs T) = T" by (simp add: cat_last_def)
next
  fix v assume "v \<in> set (cat_last outs T)"
  then obtain t where t: "t < T" "v = concat (map (\<lambda>out. out ! t) outs)"
    by (auto simp: cat_last_def)
  have "length (concat (map (\<lambda>out. out ! t) outs)) = length (map (\<lambda>out. out ! t) outs) * C"
    using assms t(1) by (intro length_concat_const) (auto dest: has_shapeD(4))
  with t show "length v = length outs * C" by simp
qed

lemma MultiHeadAttention_forward_shape:
  assumes T: "T \<le> block_size" and x: "has_shape x T n_embd"
  shows "\<exists>y. MultiHeadAttention_forward training noise m x = Inr y \<and> has_shape y T n_embd"
proof -
  let ?f = "\<lambda>i. Head_forward training (att_keep noise i) (heads m i) x"
  let ?outs = "map (\<lambda>i. projr (?f i)) [0..<n_head]"
  have h: "?f i = Inr (projr (?f i)) \<and> has_shape (projr (?f i)) T head_size" for i
    using Head_forward_shape[OF T x, of training "att_keep noise i" "heads m i"] by auto
  then have s: "sequence (map ?f [0..<n_head]) = Inr ?outs"
    by (intro sequence_map_Inr) simp
  have "has_shape (cat_last ?outs T) T (length ?outs * head_size)"
    using h by (intro cat_last_shape) auto
  then have c: "has_shape (cat_last ?outs (length x)) T n_embd"
    using x by (simp add: hm_constants has_shapeD(1))
  obtain out where out: "nn_Linear n_embd n_embd (proj m) (cat_last ?outs (length x)) = Inr out"
    "has_shape out T n_embd"
    using nn_Linear_shape[OF c] by blast
  show ?thesis
    unfolding MultiHeadAttention_forward_def s
    using out by (simp add: nn_Dropout_shape)
qed

lemma MultiHeadAttention_forward_InrD:
  assumes "MultiHeadAttention_forward training noise m x = Inr y"
  shows "length x \<le> block_size" "has_shape x (length x) n_embd"
proof -
  from assms obtain outs where
    "sequence (map (\<lambda>i. Head_forward training (att_keep noise i) (heads m i) x) [0..<n_head]) = Inr outs"
    by (auto simp: MultiHeadAttention_forward_def split: sum.splits)
  from sequence_map_InrD(2)[OF this, of 0]
  have "Head_forward training (att_keep noise 0) (heads m 0) x = Inr (outs ! 0)"
    by (simp add: n_head_def)
  then show "length x \<le> block_size" "has_shape x (length x) n_embd"
    by (rule Head_forward_InrD)+
qed

lemma FeedForward_forward_shape:
  assumes x: "has_shape x T n_embd"
  shows "\<exists>y. FeedForward_forward training keep f x = Inr y \<and> has_shape y T n_embd"
proof -
  obtain a where a: "nn_Linear n_embd (4 * n_embd) (net0 f) x = Inr a" "has_shape a T (4 * n_embd)"
    using nn_Linear_shape[OF x] by blast
  obtain out where out: "nn_Linear (4 * n_embd) n_embd (net2 f) (nn_ReLU a) = Inr out"
    "has_shape out T n_embd"
    using nn_Linear_shape[OF nn_ReLU_shape[OF a(2)]] by blast
  show ?thesis
    by (simp add: FeedForward_forward_def a out nn_Dropout_shape)
qed

lemma Block_forward_shape:
  assumes T: "T \<le> block_size" and x: "has_shape x T n_embd"
  shows "\<exists>y. Block_forward training noise b x = Inr y \<and> has_shape y T n_embd"
proof -
  obtain a where a: "nn_LayerNorm n_embd (ln1 b) x = Inr a" "has_shape a T n_embd"
    using nn_LayerNorm_shape[OF x] by blast
  obtain s where s: "MultiHeadAttention_forward training noise (sa b) a = Inr s" "has_shape s T n_embd"
    using MultiHeadAttention_forward_shape[OF T a(2)] by blast
  note x1 = tensor_add_shape[OF x s(2)]
  obtain a2 where a2: "nn_LayerNorm n_embd (ln2 b) (tensor_add x s) = Inr a2" "has_shape a2 T n_embd"
    using nn_LayerNorm_shape[OF x1] by blast
  obtain f where f: "FeedForward_forward training (ffwd_keep noise) (ffwd b) a2 = Inr f"
    "has_shape f T n_embd"
    using FeedForward_forward_shape[OF a2(2)] by blast
  show ?thesis
    by (simp add: Block_forward_def a s a2 f Let_def tensor_add_shape[OF x1 f(2)])
qed

lemma Block_forward_InrD:
  assumes "Block_forward training noise b x = Inr y"
  shows "length x \<le> block_size" "has_shape x (length x) n_embd"
proof -
  from assms obtain a s where a: "nn_LayerNorm n_embd (ln1 b) x = Inr a"
    and s: "MultiHeadAttention_forward training noise (sa b) a = Inr s"
    by (auto simp: Block_forward_def split: sum.splits)
  from nn_LayerNorm_InrD[OF a] show "has_shape x (length x) n_embd" by simp
  from nn_LayerNorm_InrD(2)[OF a] have "length a = length x" by (simp add: has_shapeD(1))
  with MultiHeadAttention_forward_InrD(1)[OF s] show "length x \<le> block_size" by simp
qed

lemma Sequential_shape:
  assumes "\<And>f x. f \<in> set fs \<Longrightarrow> has_shape x T C \<Longrightarrow> \<exists>y. f x = Inr y \<and> has_shape y T C"
    and "has_shape x T C"
  shows "\<exists>y. Sequential fs x = Inr y \<and> has_shape y T C"
  using assms
proof (induction fs arbitrary: x)
  case Nil
  then show ?case by simp
next
  case (Cons f fs)
  from Cons.prems obtain y where y: "f x = Inr y" "has_shape y T C"
    by (meson list.set_intros(1))
  have "\<exists>z. Sequential fs y = Inr z \<and> has_shape z T C"
    using Cons.prems(1) y(2) by (intro Cons.IH) auto
  with y show ?case by simp
qed

lemma stack_forward_shape:
  assumes T: "T \<le> block_size" and x: "has_shape x T n_embd"
  shows "\<exists>y. stack_forward V w training noise x = Inr y \<and> has_shape y T V"
proof -
  let ?fs = "map (\<lambda>l. Block_forward training (noise l) (blocks w l)) [0..<n_layer]"
  have "\<exists>y. Sequential ?fs x = Inr y \<and> has_shape y T n_embd"
    using x by (rule Sequential_shape[rotated]) (auto intro: Block_forward_shape[OF T])
  then obtain x1 where x1: "Sequential ?fs x = Inr x1" "has_shape x1 T n_embd" by blast
  obtain x2 where x2: "nn_LayerNorm n_embd (ln_f w) x1 = Inr x2" "has_shape x2 T n_embd"
    using nn_LayerNorm_shape[OF x1(2)] by blast
  show ?thesis
    using nn_Linear_shape[OF x2(2)] by (simp add: stack_forward_def x1 x2)
qed

section \<open>The forward pass returns within the context length\<close>

lemma embed_row_shape:
  assumes "length ids = T"
  shows "has_shape (embed_row w T ids) T n_embd"
  unfolding embed_row_def
  by (rule tensor_add_shape) (auto intro!: has_shapeI simp: assms)

lemma token_lookup_Inr:
  assumes "valid_ids V idx"
  shows "sequence (map (nn_Embedding V n_embd table) (rows idx)) =
     Inr (map (\<lambda>r. map (\<lambda>i. map (table i) [0..<n_embd]) r) (rows idx))"
  using assms
  by (intro sequence_map_Inr) (auto simp: valid_ids_def nn_Embedding_def list_all_iff)

lemma token_lookup_error:
  "sequence (map (nn_Embedding V n_embd table) rs) = Inl e \<Longrightarrow> e = IndexError"
  by (auto dest!: sequence_Inl simp: nn_Embedding_def split: if_splits)

lemma position_lookup:
  "nn_Embedding block_size n_embd table [0..<T] =
     (if T \<le> block_size then Inr (map (\<lambda>t. map (table t) [0..<n_embd]) [0..<T]) else Inl IndexError)"
  by (auto simp: nn_Embedding_def list_all_iff not_le intro: bexI[of _ block_size])

lemma forward_too_long:
  assumes "block_size < size1 idx"
  shows "forward V w training noise idx targets = Inl IndexError"
proof (cases "sequence (map (nn_Embedding V n_embd (token_embedding_table w)) (rows idx))")
  case (Inl e)
  with token_lookup_error[OF Inl] show ?thesis
    by (simp add: forward_def Let_def)
next
  case (Inr tok)
  with assms show ?thesis
    by (simp add: forward_def Let_def position_lookup)
qed

lemma stack_rows:
  fixes w :: weights and training :: bool and noise :: "nat \<Rightarrow> nat \<Rightarrow> block_noise" and V :: nat
  assumes ws: "well_shaped idx" and T: "size1 idx \<le> block_size"
    and xb: "\<And>b. b < size0 idx \<Longrightarrow> x ! b = embed_row w (size1 idx) (rows idx ! b)"
  defines "lg \<equiv> map (\<lambda>b. projr (stack_forward V w training (noise b)
                        (embed_row w (size1 idx) (rows idx ! b)))) [0..<size0 idx]"
  shows "sequence (map (\<lambda>b. stack_forward V w training (noise b) (x ! b)) [0..<size0 idx]) = Inr lg"
    and "length lg = size0 idx"
    and "\<And>b. b < size0 idx \<Longrightarrow> has_shape (lg ! b) (size1 idx) V"
    and "\<And>b. b < size0 idx \<Longrightarrow> stack_forward V w training (noise b)
            (embed_row w (size1 idx) (rows idx ! b)) = Inr (lg ! b)"
proof -
  let ?T = "size1 idx"
  from ws have rl: "\<And>b. b < size0 idx \<Longrightarrow> length (rows idx ! b) = ?T"
    by (auto simp: well_shaped_def list_all_length)
  have st: "\<exists>y. stack_forward V w training (noise b) (embed_row w ?T (rows idx ! b)) = Inr y
      \<and> has_shape y ?T V" if "b < size0 idx" for b
    using stack_forward_shape[OF T embed_row_shape[OF rl[OF that]]] .
  have st2: "stack_forward V w training (noise b) (x ! b) =
      Inr (projr (stack_forward V w training (noise b) (embed_row w ?T (rows idx ! b))))"
    if "b < size0 idx" for b
    using st[OF that] unfolding xb[OF that] by auto
  show "sequence (map (\<lambda>b. stack_forward V w training (noise b) (x ! b)) [0..<size0 idx]) = Inr lg"
    unfolding lg_def
    by (rule sequence_map_Inr) (simp add: st2)
  show "length lg = size0 idx" by (simp add: lg_def)
  show "has_shape (lg ! b) ?T V" if "b < size0 idx" for b
    using st[OF that] that by (auto simp: lg_def)
  show "stack_forward V w training (noise b) (embed_row w ?T (rows idx ! b)) = Inr (lg ! b)"
    if "b < size0 idx" for b
    using st[OF that] that by (auto simp: lg_def)
qed

lemma forward_stack:
  assumes ws: "well_shaped idx" and T: "size1 idx \<le> block_size" and v: "valid_ids V idx"
  shows "forward V w training noise idx targets =
    (case targets of
       None \<Rightarrow> Inr (Logits3 (map (\<lambda>b. projr (stack_forward V w training (noise b)
                        (embed_row w (size1 idx) (rows idx ! b)))) [0..<size0 idx]), None)
     | Some tg \<Rightarrow>
         if size0 tg * size1 tg \<noteq> size0 idx * size1 idx then Inl RuntimeError
         else (case F_cross_entropy (concat (map (\<lambda>b. projr (stack_forward V w training (noise b)
                        (embed_row w (size1 idx) (rows idx ! b)))) [0..<size0 idx])) (concat (rows tg)) of
                 Inl e \<Rightarrow> Inl e
               | Inr loss \<Rightarrow> Inr (Logits2 (concat (map (\<lambda>b. projr (stack_forward V w training (noise b)
                        (embed_row w (size1 idx) (rows idx ! b)))) [0..<size0 idx])), Some loss)))"
proof -
  let ?pos = "map (\<lambda>t. map (position_embedding_table w t) [0..<n_embd]) [0..<size1 idx]"
  let ?tok = "map (\<lambda>r. map (\<lambda>i. map (token_embedding_table w i) [0..<n_embd]) r) (rows idx)"
  define x where "x = map (\<lambda>r. tensor_add r ?pos) ?tok"
  from ws have len: "length (rows idx) = size0 idx"
    by (simp add: well_shaped_def)
  have xb: "x ! b = embed_row w (size1 idx) (rows idx ! b)" if "b < size0 idx" for b
    using that len by (simp add: embed_row_def x_def)
  have pos: "nn_Embedding block_size n_embd (position_embedding_table w) [0..<size1 idx] = Inr ?pos"
    using T by (simp add: position_lookup)
  note seq = stack_rows(1)[OF ws T xb, where training = training and noise = noise and V = V]
  show ?thesis
    by (simp only: forward_def Let_def token_lookup_Inr[OF v] pos sum.case x_def[symmetric] seq)
qed

lemma forward_Inr:
  assumes ws: "well_shaped idx" and T: "size1 idx \<le> block_size" and v: "valid_ids V idx"
  shows "\<exists>lg. forward V w training noise idx None = Inr (Logits3 lg, None) \<and>
           length lg = size0 idx \<and>
           (\<forall>b<size0 idx. has_shape (lg ! b) (size1 idx) V \<and>
              stack_forward V w training (noise b) (embed_row w (size1 idx) (rows idx ! b)) = Inr (lg ! b))"
proof -
  have xb: "\<And>b. b < size0 idx \<Longrightarrow> map (embed_row w (size1 idx)) (rows idx) ! b
      = embed_row w (size1 idx) (rows idx ! b)"
    using ws by (simp add: well_shaped_def)
  note r = stack_rows[OF ws T xb, where training = training and noise = noise and V = V]
  from r(2,3,4) show ?thesis
    unfolding forward_stack[OF ws T v] option.case by blast
qed

text \<open>
  Claim C7. On ids below the vocabulary size, a forward pass on a tensor of shape
  \<open>(B, block_size)\<close> returns logits of shape \<open>(B, block_size, V)\<close>; on any tensor of
  shape \<open>(B, block_size + 1)\<close> it raises an index error and returns no logits.
\<close>

theorem forward_context_boundary:
  "(well_shaped idx \<and> size1 idx = block_size \<and> valid_ids V idx \<longrightarrow>
      (\<exists>lg. forward V w training noise idx None = Inr (Logits3 lg, None) \<and>
         length lg = size0 idx \<and> (\<forall>b<size0 idx. has_shape (lg ! b) block_size V))) \<and>
   (size1 idx = block_size + 1 \<longrightarrow> forward V w training noise idx targets = Inl IndexError)"
proof (intro conjI impI)
  assume a: "well_shaped idx \<and> size1 idx = block_size \<and> valid_ids V idx"
  then have "size1 idx \<le> block_size" by simp
  from forward_Inr[OF _ this, of V w training noise] a
  show "\<exists>lg. forward V w training noise idx None = Inr (Logits3 lg, None) \<and>
         length lg = size0 idx \<and> (\<forall>b<size0 idx. has_shape (lg ! b) block_size V)"
    by auto
next
  assume "size1 idx = block_size + 1"
  then have "block_size < size1 idx" by simp
  then show "forward V w training noise idx targets = Inl IndexError"
    by (rule forward_too_long)
qed

theorem forward_context_boundary_witness:
  "(\<exists>lg. forward 1 example_weights False (\<lambda>b l. no_noise)
           \<lparr>size0 = 1, size1 = block_size, rows = [replicate block_size 0]\<rparr> None
         = Inr (Logits3 lg, None) \<and> length lg = 1 \<and> has_shape (lg ! 0) block_size 1) \<and>
   forward 1 example_weights False (\<lambda>b l. no_noise)
           \<lparr>size0 = 1, size1 = block_size + 1, rows = [replicate (block_size + 1) 0]\<rparr> None
         = Inl IndexError"
proof -
  let ?a = "\<lparr>size0 = 1, size1 = block_size, rows = [replicate block_size 0]\<rparr>"
  let ?b = "\<lparr>size0 = 1, size1 = block_size + 1, rows = [replicate (block_size + 1) 0]\<rparr>"
  have "well_shaped ?a \<and> size1 ?a = block_size \<and> valid_ids 1 ?a"
    by (simp add: well_shaped_def valid_ids_def list_all_iff)
  with forward_context_boundary[of ?a 1 example_weights False "\<lambda>b l. no_noise"]
  have 1: "\<exists>lg. forward 1 example_weights False (\<lambda>b l. no_noise) ?a None = Inr (Logits3 lg, None) \<and>
         length lg = 1 \<and> has_shape (lg ! 0) block_size 1"
    by auto
  have "size1 ?b = block_size + 1" by simp
  with forward_context_boundary[of ?b 1 example_weights False "\<lambda>b l. no_noise" None]
  have 2: "forward 1 example_weights False (\<lambda>b l. no_noise) ?b None = Inl IndexError"
    by blast
  from 1 2 show ?thesis by blast
qed

section \<open>Causality\<close>

lemma causalI:
  assumes "\<And>x x' y y' n. f x = Inr y \<Longrightarrow> f x' = Inr y' \<Longrightarrow> take n x = take n x' \<Longrightarrow> take n y = take n y'"
  shows "causal f"
  using assms unfolding causal_def by blast

lemma causalD:
  assumes "causal f" "f x = Inr y" "f x' = Inr y'" "take n x = take n x'"
  shows "take n y = take n y'"
  using assms unfolding causal_def by blast

lemma causal_map:
  assumes "\<And>x y. f x = Inr y \<Longrightarrow> y = map g x"
  shows "causal f"
proof (rule causalI)
  fix x x' y y' and n :: nat
  assume "f x = Inr y" "f x' = Inr y'" and eq: "take n x = take n x'"
  then have "y = map g x" "y' = map g x'" using assms by blast+
  then show "take n y = take n y'"
    by (simp add: take_map eq)
qed

lemma nn_Linear_rows: "nn_Linear n_in n_out l x = Inr y \<Longrightarrow> y = map (linear_row n_in n_out l) x"
  by (auto simp: nn_Linear_def linear_row_def split: if_splits)

lemma causal_nn_Linear: "causal (nn_Linear n_in n_out l)"
  by (rule causal_map) (rule nn_Linear_rows)

lemma causal_nn_LayerNorm: "causal (nn_LayerNorm n p)"
  by (rule causal_map[where g = "\<lambda>v. let mu = mean v; var = mean (map (\<lambda>a. (a - mu)\<^sup>2) v)
                          in map (\<lambda>i. (v ! i - mu) / sqrt (var + 1 / 100000) * ln_weight p i
                                       + ln_bias p i) [0..<n]"])
     (auto simp: nn_LayerNorm_def split: if_splits)

lemma take_tensor_add: "take n (tensor_add x y) = tensor_add (take n x) (take n y)"
  by (simp add: tensor_add_def take_zip take_map)

lemma take_nn_ReLU: "take n (nn_ReLU x) = nn_ReLU (take n x)"
  by (simp add: nn_ReLU_def take_map)

lemma softmax_row_entry:
  fixes s :: "nat \<Rightarrow> real"
  assumes "t < T" "j \<le> t"
  shows "F_softmax (map (\<lambda>j. if j \<le> t then Some (s j) else None) [0..<T]) ! j
     = exp (s j) / (\<Sum>i\<leftarrow>[0..<Suc t]. exp (s i))"
proof -
  let ?es = "map (\<lambda>j. if j \<le> t then exp (s j) else 0) [0..<T]"
  have es: "map (\<lambda>w. case w of None \<Rightarrow> 0 | Some r \<Rightarrow> exp r)
              (map (\<lambda>j. if j \<le> t then Some (s j) else None) [0..<T]) = ?es"
    by simp
  have "sum_list ?es = (\<Sum>i\<leftarrow>[0..<Suc t]. if i \<le> t then exp (s i) else 0)"
    using assms(1) by (intro sum_list_upt_zero_tail) auto
  also have "map (\<lambda>i. if i \<le> t then exp (s i) else 0) [0..<Suc t] = map (\<lambda>i. exp (s i)) [0..<Suc t]"
    by (intro map_cong) auto
  finally have Z: "sum_list ?es = (\<Sum>i\<leftarrow>[0..<Suc t]. exp (s i))" .
  have "F_softmax (map (\<lambda>j. if j \<le> t then Some (s j) else None) [0..<T]) = map (\<lambda>e. e / sum_list ?es) ?es"
    by (simp only: F_softmax_def Let_def es)
  then show ?thesis
    using assms by (simp add: Z del: upt_Suc)
qed

lemma Head_forward_row:
  assumes y: "Head_forward training keep h x = Inr y" and t: "t < length x"
  shows "y ! t = head_row h x t" and "length y = length x"
proof -
  note T = Head_forward_InrD(1)[OF y]
  from Head_forward_InrD(2)[OF y] have w: "list_all (\<lambda>v. length v = n_embd) x"
    by (rule has_shapeD(2))
  let ?wei = "map (\<lambda>t. F_softmax (map (\<lambda>j. if j \<le> t then Some (score h x t j) else None)
                                   [0..<length x])) [0..<length x]"
  obtain v where v: "nn_Linear n_embd head_size (head_value h) x = Inr v"
    using nn_Linear_shape[OF Head_forward_InrD(2)[OF y]] by blast
  note vr = nn_Linear_rows[OF v]
  from y have yeq: "y = matmul ?wei v"
    unfolding Head_forward_eq[OF T w Head_wei_eq[OF T w] v] by simp
  then show "length y = length x" by (simp add: matmul_def)
  have wt: "?wei ! t = F_softmax (map (\<lambda>j. if j \<le> t then Some (score h x t j) else None) [0..<length x])"
    using t by (simp cong: if_cong)
  have "y ! t = map (\<lambda>c. \<Sum>j\<leftarrow>[0..<length x]. ?wei ! t ! j * v ! j ! c) [0..<head_size]"
    using t by (simp add: yeq matmul_def vr cong: if_cong)
  also have "\<dots> = head_row h x t"
    unfolding head_row_def
  proof (rule map_cong[OF refl])
    fix c
    have "(\<Sum>j\<leftarrow>[0..<length x]. ?wei ! t ! j * v ! j ! c) = (\<Sum>j\<leftarrow>[0..<Suc t]. ?wei ! t ! j * v ! j ! c)"
      using wei_row(4)[OF t, of "score h x t"]
      by (intro sum_list_upt_zero_tail t) (simp add: wt)
    also have "map (\<lambda>j. ?wei ! t ! j * v ! j ! c) [0..<Suc t]
       = map (\<lambda>j. exp (score h x t j) / (\<Sum>i\<leftarrow>[0..<Suc t]. exp (score h x t i))
                 * linear_row n_embd head_size (head_value h) (x ! j) ! c) [0..<Suc t]"
    proof (rule map_cong[OF refl])
      fix j assume "j \<in> set [0..<Suc t]"
      then have j: "j \<le> t" by auto
      with t have "v ! j = linear_row n_embd head_size (head_value h) (x ! j)"
        by (simp add: vr)
      then show "?wei ! t ! j * v ! j ! c = exp (score h x t j) / (\<Sum>i\<leftarrow>[0..<Suc t]. exp (score h x t i))
                 * linear_row n_embd head_size (head_value h) (x ! j) ! c"
        unfolding wt softmax_row_entry[OF t j] by simp
    qed
    finally show "(\<Sum>j\<leftarrow>[0..<length x]. ?wei ! t ! j * v ! j ! c) =
       (\<Sum>j\<leftarrow>[0..<Suc t]. exp (score h x t j) / (\<Sum>i\<leftarrow>[0..<Suc t]. exp (score h x t i))
                 * linear_row n_embd head_size (head_value h) (x ! j) ! c)" .
  qed
  finally show "y ! t = head_row h x t" .
qed

lemma Head_forward_length:
  assumes y: "Head_forward training keep h x = Inr y"
  shows "length y = length x"
proof -
  obtain y' where "Head_forward training keep h x = Inr y'" "has_shape y' (length x) head_size"
    using Head_forward_shape[OF Head_forward_InrD[OF y]] by blast
  with y show ?thesis by (simp add: has_shapeD(1))
qed

lemma take_eq_nth:
  assumes "take n x = take n x'" "j < n"
  shows "x ! j = x' ! j"
  using assms nth_take[of j n x] nth_take[of j n x'] by simp

lemma take_eq_hd:
  assumes "take (Suc t) x = take (Suc t) x'"
  shows "hd x = hd x'"
proof (cases x)
  case Nil
  with assms have "x' = []" by simp
  with Nil show ?thesis by simp
next
  case (Cons a xs)
  with assms show ?thesis by (cases x') auto
qed

lemma take_eq_mono:
  assumes "take n x = take n x'" "m \<le> n"
  shows "take m x = take m x'"
proof -
  have "take m (take n x) = take m (take n x')" using assms(1) by simp
  with assms(2) show ?thesis by (simp add: min_def)
qed

lemma take_eq_length:
  assumes "take n x = take n x'"
  shows "min n (length x) = min n (length x')"
  using arg_cong[OF assms, of length] by (simp add: min.commute)

lemma score_cong:
  assumes "take (Suc t) x = take (Suc t) x'" "j \<le> t"
  shows "score h x t j = score h x' t j"
proof -
  have "x ! t = x' ! t" "x ! j = x' ! j"
    using assms by (auto intro: take_eq_nth)
  moreover have "hd x = hd x'" using assms(1) by (rule take_eq_hd)
  ultimately show ?thesis by (simp add: score_def)
qed

lemma head_row_cong:
  assumes eq: "take (Suc t) x = take (Suc t) x'"
  shows "head_row h x t = head_row h x' t"
proof -
  have s: "map (\<lambda>i. exp (score h x t i)) [0..<Suc t] = map (\<lambda>i. exp (score h x' t i)) [0..<Suc t]"
    by (rule map_cong[OF refl]) (use score_cong[OF eq] in auto)
  have "map (\<lambda>j. exp (score h x t j) / (\<Sum>i\<leftarrow>[0..<Suc t]. exp (score h x t i))
                 * linear_row n_embd head_size (head_value h) (x ! j) ! c) [0..<Suc t]
      = map (\<lambda>j. exp (score h x' t j) / (\<Sum>i\<leftarrow>[0..<Suc t]. exp (score h x' t i))
                 * linear_row n_embd head_size (head_value h) (x' ! j) ! c) [0..<Suc t]" for c
  proof (rule map_cong[OF refl])
    fix j assume "j \<in> set [0..<Suc t]"
    then have j: "j \<le> t" by auto
    then have "x ! j = x' ! j" using eq by (auto intro: take_eq_nth)
    with score_cong[OF eq j, of h] s
    show "exp (score h x t j) / (\<Sum>i\<leftarrow>[0..<Suc t]. exp (score h x t i))
                 * linear_row n_embd head_size (head_value h) (x ! j) ! c
        = exp (score h x' t j) / (\<Sum>i\<leftarrow>[0..<Suc t]. exp (score h x' t i))
                 * linear_row n_embd head_size (head_value h) (x' ! j) ! c"
      by (simp only:)
  qed
  then show ?thesis
    unfolding head_row_def by (simp only:)
qed

lemma take_upt0: "take n [0..<T] = [0..<min n T]"
  by (cases "n \<le> T") (simp_all add: min_def)

lemma causal_rows:
  assumes len: "length y = length x" "length y' = length x'"
    and eq: "take n x = take n x'"
    and rows: "\<And>t. t < n \<Longrightarrow> t < length x \<Longrightarrow> t < length x' \<Longrightarrow> y ! t = y' ! t"
  shows "take n y = take n y'"
proof (rule nth_equalityI)
  show l: "length (take n y) = length (take n y')"
    using take_eq_length[OF eq] len by (simp add: min.commute)
  fix t assume "t < length (take n y)"
  then have t: "t < min n (length x)" using len by (simp add: min.commute)
  with take_eq_length[OF eq] have "t < min n (length x')" by simp
  with t have "t < n" "t < length x" "t < length x'"
    by simp_all
  then show "take n y ! t = take n y' ! t"
    using rows by simp
qed

lemma causal_Head_forward: "causal (Head_forward training keep h)"
proof (rule causalI)
  fix x x' y y' and n :: nat
  assume y: "Head_forward training keep h x = Inr y" and y': "Head_forward training keep h x' = Inr y'"
    and eq: "take n x = take n x'"
  have rows: "y ! t = y' ! t" if t: "t < n" "t < length x" "t < length x'" for t
  proof -
    have "take (Suc t) x = take (Suc t) x'"
      using t(1) by (intro take_eq_mono[OF eq]) simp
    then show ?thesis
      unfolding Head_forward_row(1)[OF y t(2)] Head_forward_row(1)[OF y' t(3)]
      by (rule head_row_cong)
  qed
  show "take n y = take n y'"
  proof (rule causal_rows[OF Head_forward_length[OF y] Head_forward_length[OF y'] eq])
    fix t assume "t < n" "t < length x" "t < length x'"
    then show "y ! t = y' ! t" by (rule rows)
  qed
qed

lemma Head_forward_mode: "Head_forward training keep h x = Head_forward False keep' h x"
  by (auto simp: Head_forward_def Let_def split: sum.splits)

lemma take_nn_Dropout:
  assumes "take n x = take n x'"
  shows "take n (nn_Dropout training p keep x) = take n (nn_Dropout training p keep x')"
proof (cases training)
  case False
  with assms show ?thesis by (simp add: nn_Dropout_def)
next
  case True
  have len: "length (nn_Dropout True p keep x) = length x" "length (nn_Dropout True p keep x') = length x'"
    by (simp_all add: nn_Dropout_def)
  have rows: "nn_Dropout True p keep x ! t = nn_Dropout True p keep x' ! t"
    if "t < n" "t < length x" "t < length x'" for t
    using that take_eq_nth[OF assms, of t] by (simp add: nn_Dropout_def)
  have "take n (nn_Dropout True p keep x) = take n (nn_Dropout True p keep x')"
  proof (rule causal_rows[OF len assms])
    fix t assume "t < n" "t < length x" "t < length x'"
    then show "nn_Dropout True p keep x ! t = nn_Dropout True p keep x' ! t" by (rule rows)
  qed
  with True show ?thesis by simp
qed

lemma take_cat_last:
  assumes len: "length outs = length outs'"
    and T: "min n T = min n T'"
    and eq: "\<And>i. i < length outs \<Longrightarrow> take n (outs ! i) = take n (outs' ! i)"
  shows "take n (cat_last outs T) = take n (cat_last outs' T')"
proof -
  have "map (\<lambda>t. concat (map (\<lambda>out. out ! t) outs)) [0..<min n T]
      = map (\<lambda>t. concat (map (\<lambda>out. out ! t) outs')) [0..<min n T]"
  proof (rule map_cong[OF refl])
    fix t assume "t \<in> set [0..<min n T]"
    then have t: "t < n" by simp
    have "map (\<lambda>out. out ! t) outs = map (\<lambda>out. out ! t) outs'"
      using len take_eq_nth[OF eq t] by (intro nth_equalityI) simp_all
    then show "concat (map (\<lambda>out. out ! t) outs) = concat (map (\<lambda>out. out ! t) outs')"
      by simp
  qed
  then show ?thesis
    by (simp add: cat_last_def take_map take_upt0 T)
qed

lemma causal_MultiHeadAttention_forward: "causal (MultiHeadAttention_forward training noise m)"
proof (rule causalI)
  fix x x' y y' and n :: nat
  let ?f = "\<lambda>x i. Head_forward training (att_keep noise i) (heads m i) x"
  assume y: "MultiHeadAttention_forward training noise m x = Inr y"
    and y': "MultiHeadAttention_forward training noise m x' = Inr y'"
    and eq: "take n x = take n x'"
  from y obtain outs out where outs: "sequence (map (?f x) [0..<n_head]) = Inr outs"
    and out: "nn_Linear n_embd n_embd (proj m) (cat_last outs (length x)) = Inr out"
    and yo: "y = nn_Dropout training dropout (proj_keep noise) out"
    by (auto simp: MultiHeadAttention_forward_def split: sum.splits)
  from y' obtain outs' out' where outs': "sequence (map (?f x') [0..<n_head]) = Inr outs'"
    and out': "nn_Linear n_embd n_embd (proj m) (cat_last outs' (length x')) = Inr out'"
    and yo': "y' = nn_Dropout training dropout (proj_keep noise) out'"
    by (auto simp: MultiHeadAttention_forward_def split: sum.splits)
  note so = sequence_map_InrD[OF outs] and so' = sequence_map_InrD[OF outs']
  have "take n (outs ! i) = take n (outs' ! i)" if "i < length outs" for i
  proof -
    from that so(1) have i: "i < length [0..<n_head]" by simp
    from so(2)[OF i] so'(2)[OF i] i
    have "?f x i = Inr (outs ! i)" "?f x' i = Inr (outs' ! i)" by simp_all
    then show ?thesis
      using causalD[OF causal_Head_forward _ _ eq] by blast
  qed
  then have "take n (cat_last outs (length x)) = take n (cat_last outs' (length x'))"
    using so(1) so'(1) take_eq_length[OF eq] by (intro take_cat_last) simp_all
  then have "take n out = take n out'"
    using causalD[OF causal_nn_Linear out out'] by blast
  then show "take n y = take n y'"
    unfolding yo yo' by (rule take_nn_Dropout)
qed

lemma causal_FeedForward_forward: "causal (FeedForward_forward training keep f)"
proof (rule causalI)
  fix x x' y y' and n :: nat
  assume y: "FeedForward_forward training keep f x = Inr y"
    and y': "FeedForward_forward training keep f x' = Inr y'"
    and eq: "take n x = take n x'"
  from y obtain a out where a: "nn_Linear n_embd (4 * n_embd) (net0 f) x = Inr a"
    and out: "nn_Linear (4 * n_embd) n_embd (net2 f) (nn_ReLU a) = Inr out"
    and yo: "y = nn_Dropout training dropout keep out"
    by (auto simp: FeedForward_forward_def split: sum.splits)
  from y' obtain a' out' where a': "nn_Linear n_embd (4 * n_embd) (net0 f) x' = Inr a'"
    and out': "nn_Linear (4 * n_embd) n_embd (net2 f) (nn_ReLU a') = Inr out'"
    and yo': "y' = nn_Dropout training dropout keep out'"
    by (auto simp: FeedForward_forward_def split: sum.splits)
  have "take n a = take n a'"
    using causalD[OF causal_nn_Linear a a' eq] .
  then have "take n (nn_ReLU a) = take n (nn_ReLU a')"
    by (simp add: take_nn_ReLU)
  then have "take n out = take n out'"
    using causalD[OF causal_nn_Linear out out'] by blast
  then show "take n y = take n y'"
    unfolding yo yo' by (rule take_nn_Dropout)
qed

lemma causal_Block_forward: "causal (Block_forward training noise b)"
proof (rule causalI)
  fix x x' y y' and n :: nat
  assume y: "Block_forward training noise b x = Inr y"
    and y': "Block_forward training noise b x' = Inr y'"
    and eq: "take n x = take n x'"
  from y obtain a s a2 f where a: "nn_LayerNorm n_embd (ln1 b) x = Inr a"
    and s: "MultiHeadAttention_forward training noise (sa b) a = Inr s"
    and a2: "nn_LayerNorm n_embd (ln2 b) (tensor_add x s) = Inr a2"
    and f: "FeedForward_forward training (ffwd_keep noise) (ffwd b) a2 = Inr f"
    and yo: "y = tensor_add (tensor_add x s) f"
    by (auto simp: Block_forward_def Let_def split: sum.splits)
  from y' obtain a' s' a2' f' where a': "nn_LayerNorm n_embd (ln1 b) x' = Inr a'"
    and s': "MultiHeadAttention_forward training noise (sa b) a' = Inr s'"
    and a2': "nn_LayerNorm n_embd (ln2 b) (tensor_add x' s') = Inr a2'"
    and f': "FeedForward_forward training (ffwd_keep noise) (ffwd b) a2' = Inr f'"
    and yo': "y' = tensor_add (tensor_add x' s') f'"
    by (auto simp: Block_forward_def Let_def split: sum.splits)
  have "take n a = take n a'"
    using causalD[OF causal_nn_LayerNorm a a' eq] .
  then have "take n s = take n s'"
    using causalD[OF causal_MultiHeadAttention_forward s s'] by blast
  with eq have x1: "take n (tensor_add x s) = take n (tensor_add x' s')"
    by (simp add: take_tensor_add)
  then have "take n a2 = take n a2'"
    using causalD[OF causal_nn_LayerNorm a2 a2'] by blast
  then have "take n f = take n f'"
    using causalD[OF causal_FeedForward_forward f f'] by blast
  with x1 show "take n y = take n y'"
    unfolding yo yo' by (simp add: take_tensor_add)
qed

lemma causal_Sequential:
  assumes "\<And>f. f \<in> set fs \<Longrightarrow> causal f"
  shows "causal (Sequential fs)"
  using assms
proof (induction fs)
  case Nil
  show ?case by (rule causalI) simp
next
  case (Cons f fs)
  have cf: "causal f" and cfs: "causal (Sequential fs)"
    using Cons by simp_all
  show ?case
  proof (rule causalI)
    fix x x' y y' and n :: nat
    assume y: "Sequential (f # fs) x = Inr y" and y': "Sequential (f # fs) x' = Inr y'"
      and eq: "take n x = take n x'"
    from y obtain z where z: "f x = Inr z" "Sequential fs z = Inr y"
      by (auto split: sum.splits)
    from y' obtain z' where z': "f x' = Inr z'" "Sequential fs z' = Inr y'"
      by (auto split: sum.splits)
    have "take n z = take n z'"
      using causalD[OF cf z(1) z'(1) eq] .
    then show "take n y = take n y'"
      using causalD[OF cfs z(2) z'(2)] by blast
  qed
qed

lemma causal_stack_forward: "causal (stack_forward V w training noise)"
proof (rule causalI)
  fix x x' y y' and n :: nat
  let ?fs = "map (\<lambda>l. Block_forward training (noise l) (blocks w l)) [0..<n_layer]"
  assume y: "stack_forward V w training noise x = Inr y"
    and y': "stack_forward V w training noise x' = Inr y'"
    and eq: "take n x = take n x'"
  from y obtain x1 x2 where x1: "Sequential ?fs x = Inr x1"
    and x2: "nn_LayerNorm n_embd (ln_f w) x1 = Inr x2"
    and yo: "nn_Linear n_embd V (lm_head w) x2 = Inr y"
    by (auto simp: stack_forward_def split: sum.splits)
  from y' obtain x1' x2' where x1': "Sequential ?fs x' = Inr x1'"
    and x2': "nn_LayerNorm n_embd (ln_f w) x1' = Inr x2'"
    and yo': "nn_Linear n_embd V (lm_head w) x2' = Inr y'"
    by (auto simp: stack_forward_def split: sum.splits)
  have "causal (Sequential ?fs)"
    by (rule causal_Sequential) (auto intro: causal_Block_forward)
  then have "take n x1 = take n x1'"
    using x1 x1' eq by (rule causalD)
  then have "take n x2 = take n x2'"
    using causalD[OF causal_nn_LayerNorm x2 x2'] by blast
  then show "take n y = take n y'"
    using causalD[OF causal_nn_Linear yo yo'] by blast
qed

text \<open>In evaluation mode no dropout mask is read.\<close>

lemma nn_Dropout_eval: "nn_Dropout False p keep x = x"
  by (simp add: nn_Dropout_def)

lemma MultiHeadAttention_forward_eval:
  "MultiHeadAttention_forward False noise m x = MultiHeadAttention_forward False noise' m x"
proof -
  have "map (\<lambda>i. Head_forward False (att_keep noise i) (heads m i) x) [0..<n_head]
      = map (\<lambda>i. Head_forward False (att_keep noise' i) (heads m i) x) [0..<n_head]"
    by (rule map_cong[OF refl]) (rule Head_forward_mode)
  then show ?thesis
    unfolding MultiHeadAttention_forward_def
    by (simp only: nn_Dropout_eval)
qed

lemma FeedForward_forward_eval:
  "FeedForward_forward False keep f x = FeedForward_forward False keep' f x"
  unfolding FeedForward_forward_def
  by (simp only: nn_Dropout_eval)

lemma Block_forward_eval: "Block_forward False noise b x = Block_forward False noise' b x"
  unfolding Block_forward_def
  by (simp only: MultiHeadAttention_forward_eval[of noise _ _ noise']
      FeedForward_forward_eval[of "ffwd_keep noise" _ _ "ffwd_keep noise'"])

lemma stack_forward_eval: "stack_forward V w False noise x = stack_forward V w False noise' x"
proof -
  have "map (\<lambda>l. Block_forward False (noise l) (blocks w l)) [0..<n_layer]
      = map (\<lambda>l. Block_forward False (noise' l) (blocks w l)) [0..<n_layer]"
    by (rule map_cong[OF refl]) (rule ext, rule Block_forward_eval)
  then show ?thesis
    by (simp only: stack_forward_def)
qed

lemma take_embed_row:
  assumes "take n ids = take n ids'"
  shows "take n (embed_row w T ids) = take n (embed_row w T ids')"
  using assms by (simp add: embed_row_def take_tensor_add take_map)

lemma head_causal_at:
  assumes x: "has_shape x T n_embd" and x': "has_shape x' T n_embd" and T: "T \<le> block_size"
    and t: "t < T" and eq: "take (Suc t) x = take (Suc t) x'"
  shows "\<exists>y y'. Head_forward False keep h x = Inr y \<and> Head_forward False keep' h x' = Inr y' \<and>
           y ! t = y' ! t"
proof -
  obtain y where y: "Head_forward False keep h x = Inr y"
    using Head_forward_shape[OF T x] by blast
  obtain y' where y': "Head_forward False keep' h x' = Inr y'"
    using Head_forward_shape[OF T x'] by blast
  from y' have "Head_forward False keep h x' = Inr y'"
    using Head_forward_mode[of False keep h x' keep'] by simp
  from causalD[OF causal_Head_forward y this eq] have "y ! t = y' ! t"
    by (rule take_eq_nth) simp
  with y y' show ?thesis by blast
qed

lemma block_causal_at:
  assumes x: "has_shape x T n_embd" and x': "has_shape x' T n_embd" and T: "T \<le> block_size"
    and t: "t < T" and eq: "take (Suc t) x = take (Suc t) x'"
  shows "\<exists>y y'. Block_forward False bn b x = Inr y \<and> Block_forward False bn' b x' = Inr y' \<and>
           y ! t = y' ! t"
proof -
  obtain y where y: "Block_forward False bn b x = Inr y"
    using Block_forward_shape[OF T x] by blast
  obtain y' where y': "Block_forward False bn' b x' = Inr y'"
    using Block_forward_shape[OF T x'] by blast
  from y' have "Block_forward False bn b x' = Inr y'"
    using Block_forward_eval[of bn b x' bn'] by simp
  from causalD[OF causal_Block_forward y this eq] have "y ! t = y' ! t"
    by (rule take_eq_nth) simp
  with y y' show ?thesis by blast
qed

lemma forward_causal_at:
  assumes ws: "well_shaped idx" "well_shaped idx'"
    and sh: "size0 idx' = size0 idx" "size1 idx' = size1 idx"
    and T: "size1 idx \<le> block_size"
    and v: "valid_ids V idx" "valid_ids V idx'"
    and t: "t < size1 idx"
    and eq: "\<forall>b<size0 idx. take (Suc t) (rows idx ! b) = take (Suc t) (rows idx' ! b)"
  shows "\<exists>lg lg'. forward V w False noise idx None = Inr (Logits3 lg, None) \<and>
           forward V w False noise' idx' None = Inr (Logits3 lg', None) \<and>
           length lg = size0 idx \<and> length lg' = size0 idx \<and>
           (\<forall>b<size0 idx. lg ! b ! t = lg' ! b ! t)"
proof -
  from T sh have T': "size1 idx' \<le> block_size" by simp
  obtain lg where lg: "forward V w False noise idx None = Inr (Logits3 lg, None)"
    "length lg = size0 idx"
    "\<forall>b<size0 idx. has_shape (lg ! b) (size1 idx) V \<and>
       stack_forward V w False (noise b) (embed_row w (size1 idx) (rows idx ! b)) = Inr (lg ! b)"
    using forward_Inr[OF ws(1) T v(1), of w False noise] by blast
  obtain lg' where lg': "forward V w False noise' idx' None = Inr (Logits3 lg', None)"
    "length lg' = size0 idx'"
    "\<forall>b<size0 idx'. has_shape (lg' ! b) (size1 idx') V \<and>
       stack_forward V w False (noise' b) (embed_row w (size1 idx') (rows idx' ! b)) = Inr (lg' ! b)"
    using forward_Inr[OF ws(2) T' v(2), of w False noise'] by blast
  have "lg ! b ! t = lg' ! b ! t" if b: "b < size0 idx" for b
  proof -
    from lg(3) b have 1: "stack_forward V w False (noise b) (embed_row w (size1 idx) (rows idx ! b))
        = Inr (lg ! b)" by blast
    from lg'(3) b sh have "stack_forward V w False (noise' b) (embed_row w (size1 idx) (rows idx' ! b))
        = Inr (lg' ! b)" by simp
    then have 2: "stack_forward V w False (noise b) (embed_row w (size1 idx) (rows idx' ! b))
        = Inr (lg' ! b)"
      using stack_forward_eval[of V w "noise b" _ "noise' b"] by simp
    from eq b have "take (Suc t) (embed_row w (size1 idx) (rows idx ! b))
        = take (Suc t) (embed_row w (size1 idx) (rows idx' ! b))"
      by (intro take_embed_row) simp
    from causalD[OF causal_stack_forward 1 2 this] show ?thesis
      by (rule take_eq_nth) simp
  qed
  with lg(1,2) lg'(1,2) sh show ?thesis by auto
qed

text \<open>
  Claim C1. In evaluation mode, whatever dropout masks the two calls are given: for two
  inputs of the same shape with \<open>T \<le> block_size\<close> that agree on positions \<open>0 .. t\<close>
  of every row, both calls return and their outputs at position \<open>t\<close> are equal. This holds
  for one attention head and for one block (on activations of width \<open>n_embd\<close>), and
  for the logits of the whole model (on valid token ids).
\<close>

theorem forward_causal:
  "(has_shape x T n_embd \<and> has_shape x' T n_embd \<and> T \<le> block_size \<and> t < T \<and>
      take (Suc t) x = take (Suc t) x' \<longrightarrow>
      (\<exists>y y'. Head_forward False keep h x = Inr y \<and> Head_forward False keep' h x' = Inr y' \<and>
           y ! t = y' ! t) \<and>
      (\<exists>y y'. Block_forward False bn b x = Inr y \<and> Block_forward False bn' b x' = Inr y' \<and>
           y ! t = y' ! t)) \<and>
   (well_shaped idx \<and> well_shaped idx' \<and> size0 idx' = size0 idx \<and> size1 idx' = size1 idx \<and>
      size1 idx \<le> block_size \<and> valid_ids V idx \<and> valid_ids V idx' \<and> t' < size1 idx \<and>
      (\<forall>i<size0 idx. take (Suc t') (rows idx ! i) = take (Suc t') (rows idx' ! i)) \<longrightarrow>
      (\<exists>lg lg'. forward V w False noise idx None = Inr (Logits3 lg, None) \<and>
           forward V w False noise' idx' None = Inr (Logits3 lg', None) \<and>
           length lg = size0 idx \<and> length lg' = size0 idx \<and>
           (\<forall>i<size0 idx. lg ! i ! t' = lg' ! i ! t')))"
  using head_causal_at[of x T x' t keep h keep'] block_causal_at[of x T x' t bn b bn']
    forward_causal_at[of idx idx' V t' w noise noise']
  by blast

theorem forward_causal_witness:
  "(\<exists>y y'. Head_forward False (\<lambda>t c. True) example_head [replicate n_embd 0, replicate n_embd 1] = Inr y \<and>
      Head_forward False (\<lambda>t c. False) example_head [replicate n_embd 0, replicate n_embd 2] = Inr y' \<and>
      y ! 0 = y' ! 0) \<and>
   (\<exists>y y'. Block_forward False no_noise example_block [replicate n_embd 0, replicate n_embd 1] = Inr y \<and>
      Block_forward False no_noise example_block [replicate n_embd 0, replicate n_embd 2] = Inr y' \<and>
      y ! 0 = y' ! 0) \<and>
   (\<exists>lg lg'. forward 2 example_weights False (\<lambda>b l. no_noise) \<lparr>size0 = 1, size1 = 2, rows = [[0, 0]]\<rparr> None
        = Inr (Logits3 lg, None) \<and>
      forward 2 example_weights False (\<lambda>b l. no_noise) \<lparr>size0 = 1, size1 = 2, rows = [[0, 1]]\<rparr> None
        = Inr (Logits3 lg', None) \<and>
      lg ! 0 ! 0 = lg' ! 0 ! 0)"
proof -
  let ?x = "[replicate n_embd (0::real), replicate n_embd 1]"
  let ?x' = "[replicate n_embd (0::real), replicate n_embd 2]"
  let ?i = "\<lparr>size0 = 1, size1 = 2, rows = [[0, 0]]\<rparr>"
  let ?i' = "\<lparr>size0 = 1, size1 = 2, rows = [[0, 1]]\<rparr>"
  have a: "has_shape ?x 2 n_embd \<and> has_shape ?x' 2 n_embd \<and> 2 \<le> block_size \<and> (0::nat) < 2 \<and>
      take (Suc 0) ?x = take (Suc 0) ?x'"
    by (simp add: has_shape_def block_size_def)
  have b: "well_shaped ?i \<and> well_shaped ?i' \<and> size0 ?i' = size0 ?i \<and> size1 ?i' = size1 ?i \<and>
      size1 ?i \<le> block_size \<and> valid_ids 2 ?i \<and> valid_ids 2 ?i' \<and> 0 < size1 ?i \<and>
      (\<forall>i<size0 ?i. take (Suc 0) (rows ?i ! i) = take (Suc 0) (rows ?i' ! i))"
    by (simp add: well_shaped_def valid_ids_def block_size_def)
  note inst = forward_causal[of ?x 2 ?x' 0 "\<lambda>t c. True" example_head "\<lambda>t c. False"
      no_noise example_block no_noise ?i ?i' 2 0 example_weights "\<lambda>b l. no_noise" "\<lambda>b l. no_noise"]
  from inst a have 1: "(\<exists>y y'. Head_forward False (\<lambda>t c. True) example_head ?x = Inr y \<and>
      Head_forward False (\<lambda>t c. False) example_head ?x' = Inr y' \<and> y ! 0 = y' ! 0) \<and>
   (\<exists>y y'. Block_forward False no_noise example_block ?x = Inr y \<and>
      Block_forward False no_noise example_block ?x' = Inr y' \<and> y ! 0 = y' ! 0)"
    by blast
  from inst b have 2: "\<exists>lg lg'. forward 2 example_weights False (\<lambda>b l. no_noise) ?i None = Inr (Logits3 lg, None) \<and>
      forward 2 example_weights False (\<lambda>b l. no_noise) ?i' None = Inr (Logits3 lg', None) \<and>
      lg ! 0 ! 0 = lg' ! 0 ! 0"
    by auto
  from 1 2 show ?thesis by blast
qed

section \<open>Generation\<close>

lemma block_size_pos: "0 < block_size"
  by (simp add: block_size_def)

lemma well_shapedD:
  assumes "well_shaped idx"
  shows "length (rows idx) = size0 idx"
    and "\<And>b. b < size0 idx \<Longrightarrow> length (rows idx ! b) = size1 idx"
    and "\<And>r. r \<in> set (rows idx) \<Longrightarrow> length r = size1 idx"
  using assms by (auto simp: well_shaped_def list_all_iff)

lemma valid_idsD:
  assumes "valid_ids V idx" "r \<in> set (rows idx)" "i \<in> set r"
  shows "i < V"
  using assms by (auto simp: valid_ids_def list_all_iff)

lemma crop_props:
  assumes ws: "well_shaped idx"
  shows "well_shaped (crop idx)" and "size0 (crop idx) = size0 idx"
    and "size1 (crop idx) \<le> block_size" and "size1 (crop idx) = min (size1 idx) block_size"
    and "valid_ids V idx \<Longrightarrow> valid_ids V (crop idx)"
proof -
  show "well_shaped (crop idx)"
    using well_shapedD[OF ws] by (auto simp: well_shaped_def crop_def list_all_iff)
  show "size0 (crop idx) = size0 idx" "size1 (crop idx) \<le> block_size"
    "size1 (crop idx) = min (size1 idx) block_size"
    by (simp_all add: crop_def)
  show "valid_ids V (crop idx)" if "valid_ids V idx"
    using that by (auto simp: valid_ids_def crop_def list_all_iff dest: in_set_dropD)
qed

lemma softmax_probs:
  assumes "l \<noteq> []"
  shows "F_softmax (map Some l) \<noteq> []" "list_all (\<lambda>a. 0 \<le> a) (F_softmax (map Some l))"
    "0 < sum_list (F_softmax (map Some l))" "length (F_softmax (map Some l)) = length l"
proof -
  show len: "length (F_softmax (map Some l)) = length l"
    by (simp add: length_F_softmax)
  with assms show "F_softmax (map Some l) \<noteq> []" by auto
  show "list_all (\<lambda>a. 0 \<le> a) (F_softmax (map Some l))"
    by (auto simp: list_all_iff intro: F_softmax_nonneg)
  from assms obtain a where "Some a \<in> set (map Some l)"
    by (cases l) auto
  from F_softmax_sum[OF this] show "0 < sum_list (F_softmax (map Some l))" by simp
qed

lemma categorical_less: "probs \<noteq> [] \<Longrightarrow> categorical probs u < length probs"
  by (cases probs) (simp_all add: categorical_def min_def)

lemma torch_cat_props:
  assumes ws: "well_shaped idx" and len: "length nxt = size0 idx"
  shows "well_shaped (torch_cat idx nxt)" and "size0 (torch_cat idx nxt) = size0 idx"
    and "size1 (torch_cat idx nxt) = size1 idx + 1"
    and "\<And>b. b < size0 idx \<Longrightarrow> rows (torch_cat idx nxt) ! b = rows idx ! b @ [nxt ! b]"
    and "valid_ids V idx \<Longrightarrow> list_all (\<lambda>i. i < V) nxt \<Longrightarrow> valid_ids V (torch_cat idx nxt)"
proof -
  note w = well_shapedD[OF ws]
  show "well_shaped (torch_cat idx nxt)"
    using w len by (auto simp: well_shaped_def torch_cat_def list_all_iff dest: set_zip_leftD)
  show "size0 (torch_cat idx nxt) = size0 idx" "size1 (torch_cat idx nxt) = size1 idx + 1"
    by (simp_all add: torch_cat_def)
  show "rows (torch_cat idx nxt) ! b = rows idx ! b @ [nxt ! b]" if "b < size0 idx" for b
    using that w(1) len by (simp add: torch_cat_def)
  show "valid_ids V (torch_cat idx nxt)" if "valid_ids V idx" "list_all (\<lambda>i. i < V) nxt"
    using that
    by (auto simp: valid_ids_def torch_cat_def list_all_iff dest: set_zip_leftD set_zip_rightD)
qed

lemma generate_Suc:
  assumes ws: "well_shaped idx" and v: "valid_ids V idx" and T: "0 < size1 idx"
  shows "\<exists>lg. forward V w training (noise 0) (crop idx) None = Inr (Logits3 lg, None) \<and>
      generate V w training noise idx (Suc k) g =
        generate V w training (\<lambda>s. noise (Suc s))
          (torch_cat idx (map (\<lambda>b. categorical (F_softmax (map Some (last (lg ! b)))) (uniform01 (g b)))
                              [0..<size0 idx])) k (advance (size0 idx) g) \<and>
      list_all (\<lambda>i. i < V) (map (\<lambda>b. categorical (F_softmax (map Some (last (lg ! b)))) (uniform01 (g b)))
                              [0..<size0 idx])"
proof -
  note c = crop_props[OF ws]
  let ?T = "size1 (crop idx)"
  have Tpos: "0 < ?T" using T block_size_pos by (simp add: c(4))
  obtain lg where lg: "forward V w training (noise 0) (crop idx) None = Inr (Logits3 lg, None)"
    "length lg = size0 idx" "\<forall>b<size0 idx. has_shape (lg ! b) ?T V"
    using forward_Inr[OF c(1) c(3) c(5)[OF v], of w training "noise 0"] c(2) by auto
  have ls: "last_step lg ?T = Inr (map last lg)"
    using Tpos by (simp add: last_step_def)
  have lastV: "length (last (lg ! b)) = V \<and> 0 < V" if b: "b < size0 idx" for b
  proof -
    from lg(3) b have sh: "has_shape (lg ! b) ?T V" by blast
    with Tpos have "lg ! b \<noteq> []" by (auto simp: has_shape_def)
    then have "last (lg ! b) \<in> set (lg ! b)" by simp
    with sh have 1: "length (last (lg ! b)) = V" by (rule has_shapeD(3))
    from well_shapedD(1)[OF ws] b have m: "rows idx ! b \<in> set (rows idx)"
      by simp
    from well_shapedD(2)[OF ws b] T have "rows idx ! b \<noteq> []"
      by auto
    note this m
    then have "hd (rows idx ! b) < V"
      using valid_idsD[OF v, of "rows idx ! b" "hd (rows idx ! b)"] by simp
    with 1 show ?thesis by simp
  qed
  let ?probs = "map (\<lambda>l. F_softmax (map Some l)) (map last lg)"
  have pb: "?probs ! b = F_softmax (map Some (last (lg ! b)))" if "b < size0 idx" for b
    using that lg(2) by simp
  have "\<forall>b<length ?probs. ?probs ! b \<noteq> [] \<and> list_all (\<lambda>a. 0 \<le> a) (?probs ! b)
      \<and> 0 < sum_list (?probs ! b)"
  proof (intro allI impI)
    fix b assume "b < length ?probs"
    then have b: "b < size0 idx" using lg(2) by simp
    from lastV[OF b] have "last (lg ! b) \<noteq> []" by auto
    from softmax_probs(1,2,3)[OF this]
    show "?probs ! b \<noteq> [] \<and> list_all (\<lambda>a. 0 \<le> a) (?probs ! b) \<and> 0 < sum_list (?probs ! b)"
      unfolding pb[OF b] by blast
  qed
  then have ok: "list_all (\<lambda>p. p \<noteq> [] \<and> list_all (\<lambda>a. 0 \<le> a) p \<and> 0 < sum_list p) ?probs"
    by (rule list_all_length[THEN iffD2])
  have smp: "map (\<lambda>b. categorical (?probs ! b) (uniform01 (g b))) [0..<length ?probs]
      = map (\<lambda>b. categorical (F_softmax (map Some (last (lg ! b)))) (uniform01 (g b))) [0..<size0 idx]"
    using lg(2) by (intro map_cong) (simp_all add: pb del: map_map)
  have mn: "torch_multinomial ?probs g =
      Inr (map (\<lambda>b. categorical (F_softmax (map Some (last (lg ! b)))) (uniform01 (g b))) [0..<size0 idx],
           advance (size0 idx) g)"
    unfolding torch_multinomial_def smp using ok lg(2) by simp
  have g: "generate V w training noise idx (Suc k) g =
        generate V w training (\<lambda>s. noise (Suc s))
          (torch_cat idx (map (\<lambda>b. categorical (F_softmax (map Some (last (lg ! b)))) (uniform01 (g b)))
                              [0..<size0 idx])) k (advance (size0 idx) g)"
    by (simp only: generate.simps Let_def lg(1) sum.case prod.case logits.case ls mn)
  have "list_all (\<lambda>i. i < V) (map (\<lambda>b. categorical (F_softmax (map Some (last (lg ! b)))) (uniform01 (g b)))
                              [0..<size0 idx])"
    unfolding list_all_iff
  proof
    fix i assume "i \<in> set (map (\<lambda>b. categorical (F_softmax (map Some (last (lg ! b)))) (uniform01 (g b)))
                              [0..<size0 idx])"
    then obtain b where b: "b < size0 idx"
      and i: "i = categorical (F_softmax (map Some (last (lg ! b)))) (uniform01 (g b))" by auto
    from lastV[OF b] have ne: "last (lg ! b) \<noteq> []" and len: "length (last (lg ! b)) = V" by auto
    from categorical_less[OF softmax_probs(1)[OF ne], of "uniform01 (g b)"]
    show "i < V" unfolding i softmax_probs(4)[OF ne] len .
  qed
  with lg(1) g show ?thesis by blast
qed

lemma advance_advance: "advance m (advance n g) = advance (m + n) g"
  by (simp add: advance_def add.assoc)

lemma columns_self:
  assumes ws: "well_shaped idx" and len: "length rs = size0 idx"
    and pre: "\<And>b. b < size0 idx \<Longrightarrow> take (size1 idx) (rs ! b) = rows idx ! b"
  shows "\<lparr>size0 = size0 idx, size1 = size1 idx, rows = map (take (size1 idx)) rs\<rparr> = idx"
proof -
  have "map (take (size1 idx)) rs = rows idx"
    using len well_shapedD(1)[OF ws] pre by (intro nth_equalityI) simp_all
  then show ?thesis by simp
qed

lemma generate_total:
  assumes ws: "well_shaped idx" and v: "valid_ids V idx" and T: "0 < size1 idx"
  shows "\<exists>res. generate V w training noise idx k g = Inr (res, advance (k * size0 idx) g) \<and>
      well_shaped res \<and> size0 res = size0 idx \<and> size1 res = size1 idx + k \<and> valid_ids V res \<and>
      (\<forall>b<size0 idx. take (size1 idx) (rows res ! b) = rows idx ! b) \<and>
      (\<forall>j<k. \<exists>lg. forward V w training (noise j) (crop (columns (size1 idx + j) res)) None
                    = Inr (Logits3 lg, None) \<and>
          (\<forall>b<size0 idx. rows res ! b ! (size1 idx + j) =
             categorical (F_softmax (map Some (last (lg ! b)))) (uniform01 (g (j * size0 idx + b)))))"
  using assms
proof (induction k arbitrary: idx noise g)
  case 0
  then show ?case
    using well_shapedD(2)[OF "0.prems"(1)] by (simp add: advance_def)
next
  case (Suc k)
  note ws = Suc.prems(1) and v = Suc.prems(2) and T = Suc.prems(3)
  let ?B = "size0 idx" and ?T = "size1 idx"
  obtain lg where lg: "forward V w training (noise 0) (crop idx) None = Inr (Logits3 lg, None)"
    and gen: "generate V w training noise idx (Suc k) g =
        generate V w training (\<lambda>s. noise (Suc s))
          (torch_cat idx (map (\<lambda>b. categorical (F_softmax (map Some (last (lg ! b)))) (uniform01 (g b)))
                              [0..<?B])) k (advance ?B g)"
    and nv: "list_all (\<lambda>i. i < V) (map (\<lambda>b. categorical (F_softmax (map Some (last (lg ! b)))) (uniform01 (g b)))
                              [0..<?B])"
    using generate_Suc[OF ws v T, of w training noise k g] by blast
  let ?nxt = "map (\<lambda>b. categorical (F_softmax (map Some (last (lg ! b)))) (uniform01 (g b))) [0..<?B]"
  let ?idx1 = "torch_cat idx ?nxt"
  have ln: "length ?nxt = ?B" by simp
  note tc = torch_cat_props[OF ws ln]
  have T1: "0 < size1 ?idx1" by (simp add: tc(3))
  obtain res where R: "generate V w training (\<lambda>s. noise (Suc s)) ?idx1 k (advance ?B g)
        = Inr (res, advance (k * size0 ?idx1) (advance ?B g)) \<and>
      well_shaped res \<and> size0 res = size0 ?idx1 \<and> size1 res = size1 ?idx1 + k \<and> valid_ids V res \<and>
      (\<forall>b<size0 ?idx1. take (size1 ?idx1) (rows res ! b) = rows ?idx1 ! b) \<and>
      (\<forall>j<k. \<exists>lg. forward V w training (noise (Suc j)) (crop (columns (size1 ?idx1 + j) res)) None
                    = Inr (Logits3 lg, None) \<and>
          (\<forall>b<size0 ?idx1. rows res ! b ! (size1 ?idx1 + j) =
             categorical (F_softmax (map Some (last (lg ! b)))) (uniform01 (advance ?B g (j * size0 ?idx1 + b)))))"
    using Suc.IH[OF tc(1) tc(5)[OF v nv] T1, of "\<lambda>s. noise (Suc s)" "advance ?B g"] by (rule exE)
  note res = R[THEN conjunct1]
  note r1 = R[THEN conjunct2, THEN conjunct1] R[THEN conjunct2, THEN conjunct2, THEN conjunct1]
    R[THEN conjunct2, THEN conjunct2, THEN conjunct2, THEN conjunct1]
    R[THEN conjunct2, THEN conjunct2, THEN conjunct2, THEN conjunct2, THEN conjunct1]
  note pre1 = R[THEN conjunct2, THEN conjunct2, THEN conjunct2, THEN conjunct2, THEN conjunct2, THEN conjunct1]
  note smp1 = R[THEN conjunct2, THEN conjunct2, THEN conjunct2, THEN conjunct2, THEN conjunct2, THEN conjunct2]
  have rowT1: "take (Suc ?T) (rows res ! b) = rows idx ! b @ [?nxt ! b]" if b: "b < ?B" for b
    using pre1 b tc(4)[OF b] by (simp add: tc(2) tc(3))
  have lenrow: "length (rows idx ! b) = ?T" if "b < ?B" for b
    using well_shapedD(2)[OF ws that] .
  have pre: "take ?T (rows res ! b) = rows idx ! b" if b: "b < ?B" for b
  proof -
    have "take ?T (rows res ! b) = take ?T (take (Suc ?T) (rows res ! b))" by simp
    also have "\<dots> = rows idx ! b" unfolding rowT1[OF b] using lenrow[OF b] by simp
    finally show ?thesis .
  qed
  have at: "rows res ! b ! ?T = ?nxt ! b" if b: "b < ?B" for b
  proof -
    have "rows res ! b ! ?T = take (Suc ?T) (rows res ! b) ! ?T" by simp
    also have "\<dots> = ?nxt ! b" unfolding rowT1[OF b] using lenrow[OF b] by (simp add: nth_append)
    finally show ?thesis .
  qed
  have col0: "columns ?T res = idx"
    unfolding columns_def using columns_self[OF ws, of "rows res"] well_shapedD(1)[OF r1(1)] pre
    by (simp add: r1(2) tc(2))
  have smp: "\<exists>lg'. forward V w training (noise j) (crop (columns (?T + j) res)) None
                    = Inr (Logits3 lg', None) \<and>
          (\<forall>b<?B. rows res ! b ! (?T + j) =
             categorical (F_softmax (map Some (last (lg' ! b)))) (uniform01 (g (j * ?B + b))))"
    if j: "j < Suc k" for j
  proof (cases j)
    case 0
    have "\<forall>b<?B. rows res ! b ! (?T + 0) =
             categorical (F_softmax (map Some (last (lg ! b)))) (uniform01 (g (0 * ?B + b)))"
      using at by simp
    with lg col0 show ?thesis unfolding 0 by (intro exI[of _ lg]) simp
  next
    case (Suc j')
    with j have "j' < k" by simp
    with smp1 obtain lg' where l': "forward V w training (noise (Suc j')) (crop (columns (size1 ?idx1 + j') res)) None
                    = Inr (Logits3 lg', None)"
      and s': "\<forall>b<size0 ?idx1. rows res ! b ! (size1 ?idx1 + j') =
             categorical (F_softmax (map Some (last (lg' ! b)))) (uniform01 (advance ?B g (j' * size0 ?idx1 + b)))"
      by blast
    have e1: "size1 ?idx1 + j' = ?T + j" by (simp add: tc(3) Suc)
    have e2: "advance ?B g (j' * ?B + b) = g (j * ?B + b)" for b
      by (simp add: advance_def Suc add.commute add.left_commute)
    from l' have A: "forward V w training (noise j) (crop (columns (?T + j) res)) None
                    = Inr (Logits3 lg', None)"
      unfolding e1 Suc[symmetric] .
    from s' have B: "\<forall>b<?B. rows res ! b ! (?T + j) =
             categorical (F_softmax (map Some (last (lg' ! b)))) (uniform01 (g (j * ?B + b)))"
      unfolding e1 e2 tc(2) .
    from A B show ?thesis
      by (intro exI[of _ lg'] conjI)
  qed
  have gfin: "generate V w training noise idx (Suc k) g = Inr (res, advance (Suc k * ?B) g)"
    unfolding gen res by (simp add: advance_advance tc(2) add.commute)
  show ?case
  proof (intro exI[of _ res] conjI)
    show "generate V w training noise idx (Suc k) g = Inr (res, advance (Suc k * ?B) g)"
      by (rule gfin)
    show "well_shaped res" by (rule r1(1))
    show "size0 res = ?B" using r1(2) by (simp add: tc(2))
    show "size1 res = ?T + Suc k" using r1(3) by (simp add: tc(3))
    show "valid_ids V res" by (rule r1(4))
    show "\<forall>b<?B. take ?T (rows res ! b) = rows idx ! b" by (intro allI impI) (rule pre)
    show "\<forall>j<Suc k. \<exists>lg. forward V w training (noise j) (crop (columns (?T + j) res)) None
                    = Inr (Logits3 lg, None) \<and>
          (\<forall>b<?B. rows res ! b ! (?T + j) =
             categorical (F_softmax (map Some (last (lg ! b)))) (uniform01 (g (j * ?B + b))))"
      by (intro allI impI) (rule smp)
  qed
qed

text \<open>
  Claim C5 (amended). For every seed of shape \<open>(B, T)\<close> with valid token ids and every
  count \<open>k\<close>, provided the seed is not empty (\<open>T \<ge> 1\<close>) or \<open>k = 0\<close>: \<open>generate\<close> returns
  a tensor of shape \<open>(B, T + k)\<close> whose first \<open>T\<close> entries in every row are the seed; the
  entry appended at step \<open>j\<close> is a valid id, the categorical sample (by the raw draw of
  that step and row) from the softmax of the final-position logits of the model applied
  to the sequence so far cropped to its last \<open>block_size\<close> positions.
\<close>

theorem generate_extends_seed:
  assumes ws: "well_shaped idx" and v: "valid_ids V idx" and T: "0 < size1 idx \<or> k = 0"
  shows "\<exists>res g'. generate V w training noise idx k g = Inr (res, g') \<and>
      well_shaped res \<and> size0 res = size0 idx \<and> size1 res = size1 idx + k \<and>
      (\<forall>b<size0 idx. take (size1 idx) (rows res ! b) = rows idx ! b) \<and>
      (\<forall>j<k. \<exists>lg. forward V w training (noise j) (crop (columns (size1 idx + j) res)) None
                    = Inr (Logits3 lg, None) \<and>
          (\<forall>b<size0 idx. rows res ! b ! (size1 idx + j) =
             categorical (F_softmax (map Some (last (lg ! b)))) (uniform01 (g (j * size0 idx + b))) \<and>
             rows res ! b ! (size1 idx + j) < V))"
proof (cases "0 < size1 idx")
  case False
  with T have k: "k = 0" by simp
  show ?thesis
    unfolding k using ws well_shapedD(2)[OF ws] by simp
next
  case True
  obtain res where R: "generate V w training noise idx k g = Inr (res, advance (k * size0 idx) g) \<and>
      well_shaped res \<and> size0 res = size0 idx \<and> size1 res = size1 idx + k \<and> valid_ids V res \<and>
      (\<forall>b<size0 idx. take (size1 idx) (rows res ! b) = rows idx ! b) \<and>
      (\<forall>j<k. \<exists>lg. forward V w training (noise j) (crop (columns (size1 idx + j) res)) None
                    = Inr (Logits3 lg, None) \<and>
          (\<forall>b<size0 idx. rows res ! b ! (size1 idx + j) =
             categorical (F_softmax (map Some (last (lg ! b)))) (uniform01 (g (j * size0 idx + b)))))"
    using generate_total[OF ws v True, of w training noise k g] by (rule exE)
  note gen = R[THEN conjunct1]
  note wsr = R[THEN conjunct2, THEN conjunct1]
  note s0 = R[THEN conjunct2, THEN conjunct2, THEN conjunct1]
  note s1 = R[THEN conjunct2, THEN conjunct2, THEN conjunct2, THEN conjunct1]
  note vr = R[THEN conjunct2, THEN conjunct2, THEN conjunct2, THEN conjunct2, THEN conjunct1]
  note pre = R[THEN conjunct2, THEN conjunct2, THEN conjunct2, THEN conjunct2, THEN conjunct2, THEN conjunct1]
  note smp = R[THEN conjunct2, THEN conjunct2, THEN conjunct2, THEN conjunct2, THEN conjunct2, THEN conjunct2]
  have valid: "rows res ! b ! (size1 idx + j) < V" if "b < size0 idx" "j < k" for b j
  proof -
    from that(1) s0 well_shapedD(1)[OF wsr] have m: "rows res ! b \<in> set (rows res)" by simp
    from that s0 s1 well_shapedD(2)[OF wsr, of b] have "size1 idx + j < length (rows res ! b)" by simp
    then have "rows res ! b ! (size1 idx + j) \<in> set (rows res ! b)" by simp
    with valid_idsD[OF vr m] show ?thesis by blast
  qed
  have smp': "\<exists>lg. forward V w training (noise j) (crop (columns (size1 idx + j) res)) None
                    = Inr (Logits3 lg, None) \<and>
          (\<forall>b<size0 idx. rows res ! b ! (size1 idx + j) =
             categorical (F_softmax (map Some (last (lg ! b)))) (uniform01 (g (j * size0 idx + b))) \<and>
             rows res ! b ! (size1 idx + j) < V)" if j: "j < k" for j
  proof -
    from smp[rule_format, OF j] obtain lg where L: "forward V w training (noise j) (crop (columns (size1 idx + j) res)) None
                    = Inr (Logits3 lg, None) \<and>
        (\<forall>b<size0 idx. rows res ! b ! (size1 idx + j) =
             categorical (F_softmax (map Some (last (lg ! b)))) (uniform01 (g (j * size0 idx + b))))"
      by (rule exE)
    note l = L[THEN conjunct1] and s = L[THEN conjunct2]
    have "\<forall>b<size0 idx. rows res ! b ! (size1 idx + j) =
             categorical (F_softmax (map Some (last (lg ! b)))) (uniform01 (g (j * size0 idx + b))) \<and>
             rows res ! b ! (size1 idx + j) < V"
    proof (intro allI impI conjI)
      fix b assume b: "b < size0 idx"
      from s[rule_format, OF b] show "rows res ! b ! (size1 idx + j) =
             categorical (F_softmax (map Some (last (lg ! b)))) (uniform01 (g (j * size0 idx + b)))" .
      from valid[OF b j] show "rows res ! b ! (size1 idx + j) < V" .
    qed
    with l show ?thesis by (intro exI[of _ lg] conjI)
  qed
  show ?thesis
  proof (intro exI[of _ res] exI[of _ "advance (k * size0 idx) g"] conjI)
    show "generate V w training noise idx k g = Inr (res, advance (k * size0 idx) g)" by (rule gen)
    show "well_shaped res" by (rule wsr)
    show "size0 res = size0 idx" by (rule s0)
    show "size1 res = size1 idx + k" by (rule s1)
    show "\<forall>b<size0 idx. take (size1 idx) (rows res ! b) = rows idx ! b" by (rule pre)
    show "\<forall>j<k. \<exists>lg. forward V w training (noise j) (crop (columns (size1 idx + j) res)) None
                    = Inr (Logits3 lg, None) \<and>
          (\<forall>b<size0 idx. rows res ! b ! (size1 idx + j) =
             categorical (F_softmax (map Some (last (lg ! b)))) (uniform01 (g (j * size0 idx + b))) \<and>
             rows res ! b ! (size1 idx + j) < V)"
      by (intro allI impI) (rule smp')
  qed
qed

theorem generate_extends_seed_witness:
  "\<exists>res g'. generate 1 example_weights False (\<lambda>s b l. no_noise)
       \<lparr>size0 = 1, size1 = 1, rows = [[0]]\<rparr> 2 (\<lambda>k. 0) = Inr (res, g') \<and>
     size1 res = 3 \<and> take 1 (rows res ! 0) = [0] \<and> rows res ! 0 ! 1 < 1"
proof -
  let ?idx = "\<lparr>size0 = 1, size1 = 1, rows = [[0]]\<rparr>"
  let ?n = "\<lambda>(s::nat) (b::nat) (l::nat). no_noise"
  let ?g = "\<lambda>k::nat. 0::nat"
  have a: "well_shaped ?idx" "valid_ids 1 ?idx" "0 < size1 ?idx \<or> (2::nat) = 0"
    by (simp_all add: well_shaped_def valid_ids_def)
  from generate_extends_seed[OF a, of example_weights False ?n ?g]
  obtain res g' where R: "generate 1 example_weights False ?n ?idx 2 ?g = Inr (res, g') \<and>
      well_shaped res \<and> size0 res = size0 ?idx \<and> size1 res = size1 ?idx + 2 \<and>
      (\<forall>b<size0 ?idx. take (size1 ?idx) (rows res ! b) = rows ?idx ! b) \<and>
      (\<forall>j<2. \<exists>lg. forward 1 example_weights False (?n j) (crop (columns (size1 ?idx + j) res)) None
                    = Inr (Logits3 lg, None) \<and>
          (\<forall>b<size0 ?idx. rows res ! b ! (size1 ?idx + j) =
             categorical (F_softmax (map Some (last (lg ! b)))) (uniform01 (?g (j * size0 ?idx + b))) \<and>
             rows res ! b ! (size1 ?idx + j) < 1))"
    by (elim exE)
  note gen = R[THEN conjunct1]
  note s1 = R[THEN conjunct2, THEN conjunct2, THEN conjunct2, THEN conjunct1]
  note pre = R[THEN conjunct2, THEN conjunct2, THEN conjunct2, THEN conjunct2, THEN conjunct1]
  note smp = R[THEN conjunct2, THEN conjunct2, THEN conjunct2, THEN conjunct2, THEN conjunct2]
  from s1 have 1: "size1 res = 3" by simp
  from pre[rule_format, of 0] have 2: "take 1 (rows res ! 0) = [0]" by simp
  from smp[rule_format, of 0] obtain lg where
    "\<forall>b<size0 ?idx. rows res ! b ! (size1 ?idx + 0) =
             categorical (F_softmax (map Some (last (lg ! b)))) (uniform01 (?g (0 * size0 ?idx + b))) \<and>
             rows res ! b ! (size1 ?idx + 0) < 1"
    by auto
  from this[rule_format, of 0] have 3: "rows res ! 0 ! 1 < 1" by simp
  from gen 1 2 3 show ?thesis by (intro exI[of _ res] exI[of _ g'] conjI)
qed

text \<open>
  On an empty seed (\<open>T = 0\<close>) the first step raises: the model returns logits with an
  empty time axis, and \<^verbatim>\<open>logits[:, -1, :]\<close> has no last position.
\<close>

theorem generate_empty_seed_counterexample:
  "generate 1 example_weights False (\<lambda>s b l. no_noise)
       \<lparr>size0 = 1, size1 = 0, rows = [[]]\<rparr> (Suc 0) (\<lambda>k. 0) = Inl IndexError"
proof -
  let ?idx = "\<lparr>size0 = 1, size1 = 0, rows = [[]]\<rparr>"
  have c: "crop ?idx = ?idx" by (simp add: crop_def)
  have "well_shaped ?idx" "size1 ?idx \<le> block_size" "valid_ids 1 ?idx"
    by (simp_all add: well_shaped_def valid_ids_def)
  from forward_Inr[OF this, of example_weights False "\<lambda>b l. no_noise"]
  obtain lg where "forward 1 example_weights False (\<lambda>b l. no_noise) ?idx None = Inr (Logits3 lg, None)"
    by blast
  then show ?thesis
    by (simp add: crop_def last_step_def Let_def)
qed

section \<open>The loss estimator and the training loop\<close>

lemma call_model_state:
  "m_training (snd (call_model V s idx t)) = m_training s"
  "m_weights (snd (call_model V s idx t)) = m_weights s"
  "optimizer (snd (call_model V s idx t)) = optimizer s"
  "generator (snd (call_model V s idx t)) = generator s"
  "trace (snd (call_model V s idx t)) = trace s"
  "\<not> m_training s \<Longrightarrow> snd (call_model V s idx t) = s"
  "fst (call_model V s idx t) = forward V (m_weights s) (m_training s) (masks s 0) idx t"
  by (simp_all add: call_model_def)

text \<open>What the loops of the estimator leave unchanged, whether they return or raise.\<close>

lemma eval_batches_state:
  assumes "eval_batches V train val split k s = (r, s')" "\<not> m_training s"
  shows "\<not> m_training s' \<and> m_weights s' = m_weights s \<and> optimizer s' = optimizer s \<and>
         masks s' = masks s \<and> trace s' = trace s"
  using assms
proof (induction k arbitrary: s r s')
  case 0
  then show ?case by simp
next
  case (Suc k)
  show ?case
  proof (cases "get_batch train val split (generator s)")
    case (Inl e)
    with Suc.prems show ?thesis by simp
  next
    case (Inr p)
    obtain X Y g' where p: "p = ((X, Y), g')" by (metis prod.exhaust)
    let ?s0 = "s\<lparr>generator := g'\<rparr>"
    have nt: "\<not> m_training ?s0" using Suc.prems(2) by simp
    have s1: "snd (call_model V ?s0 X (Some Y)) = ?s0"
      using call_model_state(6)[OF nt] .
    obtain c where c: "call_model V ?s0 X (Some Y) = (c, ?s0)"
      using s1 by (metis prod.collapse)
    show ?thesis
    proof (cases c)
      case (Inl e)
      with Suc.prems Inr p c show ?thesis by auto
    next
      case (Inr q)
      obtain lg loss where q: "q = (lg, loss)" by (metis prod.exhaust)
      show ?thesis
      proof (cases loss)
        case None
        with Suc.prems \<open>get_batch train val split (generator s) = Inr p\<close> p c Inr q
        show ?thesis by auto
      next
        case (Some l)
        obtain r2 s2 where e: "eval_batches V train val split k ?s0 = (r2, s2)"
          by (metis prod.exhaust)
        from Suc.IH[OF e nt] have st: "\<not> m_training s2 \<and> m_weights s2 = m_weights s \<and>
            optimizer s2 = optimizer s \<and> masks s2 = masks s \<and> trace s2 = trace s"
          by simp
        from Suc.prems(1) \<open>get_batch train val split (generator s) = Inr p\<close> p c Inr q Some e
        have "s' = s2" by (auto split: sum.splits)
        with st show ?thesis by simp
      qed
    qed
  qed
qed

lemma estimate_splits_state:
  assumes "estimate_splits V train val splits out s = (r, s')" "\<not> m_training s"
  shows "\<not> m_training s' \<and> m_weights s' = m_weights s \<and> optimizer s' = optimizer s \<and>
         masks s' = masks s \<and> trace s' = trace s"
  using assms
proof (induction splits arbitrary: out s r s')
  case Nil
  then show ?case by simp
next
  case (Cons split rest)
  obtain r1 s1 where e: "eval_batches V train val split eval_iters s = (r1, s1)"
    by (metis prod.exhaust)
  note st1 = eval_batches_state[OF e Cons.prems(2)]
  show ?case
  proof (cases r1)
    case (Inl err)
    with Cons.prems(1) e st1 show ?thesis by simp
  next
    case (Inr losses)
    with Cons.prems(1) e
    have "estimate_splits V train val rest (out(split \<mapsto> mean losses)) s1 = (r, s')" by simp
    from Cons.IH[OF this] st1 show ?thesis by simp
  qed
qed

lemma estimate_loss_state:
  assumes "estimate_loss V train val s = (r, s')"
  shows "m_training s' = (case r of Inl e \<Rightarrow> False | Inr out \<Rightarrow> True)"
    and "m_weights s' = m_weights s" and "optimizer s' = optimizer s"
    and "masks s' = masks s" and "trace s' = trace s"
proof -
  let ?s0 = "s\<lparr>m_training := False\<rparr>"
  obtain r1 s1 where e: "estimate_splits V train val [''train'', ''val''] Map.empty ?s0 = (r1, s1)"
    by (metis prod.exhaust)
  have "\<not> m_training ?s0" by simp
  note st = estimate_splits_state[OF e this]
  from assms e have rs: "r = r1 \<and> s' = (case r1 of Inl e \<Rightarrow> s1 | Inr out \<Rightarrow> s1\<lparr>m_training := True\<rparr>)"
    by (auto simp: estimate_loss_def split: sum.splits)
  with st show "m_training s' = (case r of Inl e \<Rightarrow> False | Inr out \<Rightarrow> True)"
    and "m_weights s' = m_weights s" and "optimizer s' = optimizer s"
    and "masks s' = masks s" and "trace s' = trace s"
    by (auto split: sum.splits)
qed

lemma estimate_loss_any_mode:
  "estimate_loss V train val (s\<lparr>m_training := b\<rparr>) = estimate_loss V train val s"
  by (simp add: estimate_loss_def)

lemma forward_targets_Inr:
  assumes ws: "well_shaped idx" and T: "size1 idx \<le> block_size" and v: "valid_ids V idx"
    and wt: "well_shaped tg" and sh: "size0 tg = size0 idx" "size1 tg = size1 idx"
    and vt: "valid_ids V tg"
  shows "\<exists>lg l. forward V w training noise idx (Some tg) = Inr (Logits2 lg, Some l)"
proof -
  let ?lgs = "map (\<lambda>b. projr (stack_forward V w training (noise b)
                        (embed_row w (size1 idx) (rows idx ! b)))) [0..<size0 idx]"
  have xb: "\<And>b. b < size0 idx \<Longrightarrow> map (embed_row w (size1 idx)) (rows idx) ! b
      = embed_row w (size1 idx) (rows idx ! b)"
    using ws by (simp add: well_shaped_def)
  note r = stack_rows[OF ws T xb, where training = training and noise = noise and V = V]
  have el: "has_shape l (size1 idx) V" if "l \<in> set ?lgs" for l
  proof -
    from that obtain b where "b < length ?lgs" "l = ?lgs ! b"
      unfolding in_set_conv_nth by blast
    with r(2,3) show ?thesis by simp
  qed
  have l1: "length (concat ?lgs) = size0 idx * size1 idx"
    using length_concat_const[of ?lgs "size1 idx"] el r(2) by (simp add: has_shape_def)
  have l2: "length (concat (rows tg)) = size0 idx * size1 idx"
    using length_concat_const[of "rows tg" "size1 tg"] well_shapedD(1,3)[OF wt] sh by simp
  have c1: "length l = V" if "l \<in> set (concat ?lgs)" for l
  proof -
    from that obtain m where "m \<in> set ?lgs" "l \<in> set m" unfolding set_concat by blast
    with el show ?thesis by (auto dest: has_shapeD(3))
  qed
  have c2: "t < V" if "t \<in> set (concat (rows tg))" for t
    using that valid_idsD[OF vt] by auto
  have "list_all2 (\<lambda>l t. t < length l) (concat ?lgs) (concat (rows tg))"
    unfolding list_all2_conv_all_nth
  proof (intro conjI allI impI)
    show "length (concat ?lgs) = length (concat (rows tg))" using l1 l2 by simp
    fix i assume i: "i < length (concat ?lgs)"
    then have "concat ?lgs ! i \<in> set (concat ?lgs)" by (rule nth_mem)
    moreover from i l1 l2 have "i < length (concat (rows tg))" by simp
    then have "concat (rows tg) ! i \<in> set (concat (rows tg))" by (rule nth_mem)
    ultimately show "concat (rows tg) ! i < length (concat ?lgs ! i)"
      using c1 c2 by simp
  qed
  then have "\<exists>l. F_cross_entropy (concat ?lgs) (concat (rows tg)) = Inr l"
    using l1 l2 by (simp add: F_cross_entropy_def)
  then obtain l where "F_cross_entropy (concat ?lgs) (concat (rows tg)) = Inr l" by blast
  then show ?thesis
    unfolding forward_stack[OF ws T v] using sh by simp
qed

lemma set_slice: "set (slice d i j) \<subseteq> set d"
  unfolding slice_def using set_take_subset set_drop_subset by fastforce

lemma get_batch_valid:
  assumes ok: "get_batch train val split g = Inr ((x, y), g')"
    and d: "d = (if split = ''train'' then train else val)"
    and v: "list_all (\<lambda>i. i < V) d"
  shows "valid_ids V x" "valid_ids V y"
proof -
  have long: "block_size < length d"
    using get_batch_Inr_long[OF ok d] .
  note eq = ok[unfolded get_batch_long[OF long d]]
  from eq have x: "rows x = map (\<lambda>i. slice d i (i + block_size)) (offsets d g)"
    and y: "rows y = map (\<lambda>i. slice d (i + 1) (i + block_size + 1)) (offsets d g)"
    by auto
  show "valid_ids V x"
    unfolding valid_ids_def x list_all_iff using v set_slice[of d] by (auto simp: list_all_iff)
  show "valid_ids V y"
    unfolding valid_ids_def y list_all_iff using v set_slice[of d] by (auto simp: list_all_iff)
qed

lemma call_model_batch:
  assumes ok: "get_batch train val split g = Inr ((x, y), g')"
    and d: "d = (if split = ''train'' then train else val)"
    and v: "list_all (\<lambda>i. i < V) d"
  shows "\<exists>lg l. fst (call_model V s x (Some y)) = Inr (Logits2 lg, Some l)"
proof -
  note sh = get_batch_shapes[OF ok d]
  note va = get_batch_valid[OF ok d v]
  from sh have "well_shaped x" "size1 x \<le> block_size" "well_shaped y"
    "size0 y = size0 x" "size1 y = size1 x" by simp_all
  from forward_targets_Inr[OF this(1,2) va(1) this(3,4,5) va(2)]
  show ?thesis unfolding call_model_state(7) by blast
qed

end
